theory Spec2Isabelle
  imports Complex_Main
begin

section \<open>Search-term highlighting in the document modal\<close>

text \<open>
  The development embeds the match-discovery code of the \<open>DocumentModal\<close> component:
  the effect that fills \<open>matchPositions\<close> (the scroll minimap) and the function
  \<open>highlightText\<close> (the partition of the text into plain and marked elements).

  A JavaScript string is a sequence of UTF-16 code units. It is modelled as a
  \<^typ>\<open>string\<close>, each \<^typ>\<open>char\<close> standing for the code unit of the same number, so
  the model covers the texts and terms whose code units are below 256. Lengths and
  offsets count code units, as \<open>String.prototype.length\<close> and \<open>match.index\<close> do.
\<close>

subsection \<open>Characters\<close>

text \<open>The character class \<open>\s\<close> on code units below 256: TAB, LF, VT, FF, CR, space, NBSP.\<close>

definition is_whitespace :: "char \<Rightarrow> bool" where
  "is_whitespace c = (of_char c \<in> {9, 10, 11, 12, 13, 32, 160 :: nat})"

text \<open>
  \<open>String.prototype.toLowerCase\<close>, one code unit at a time: the letters A to Z and the
  capital letters of the range 192 to 222 (the multiplication sign 215 is no letter) move
  up by 32; every other code unit below 256 is its own lower case.
\<close>

definition toLowerCase_char :: "char \<Rightarrow> char" where
  "toLowerCase_char c = (let n = of_char c :: nat in
     if (65 \<le> n \<and> n \<le> 90) \<or> (192 \<le> n \<and> n \<le> 222 \<and> n \<noteq> 215)
     then char_of (n + 32) else c)"

definition toLowerCase :: "string \<Rightarrow> string" where
  "toLowerCase s = map toLowerCase_char s"

text \<open>
  The \<open>Canonicalize\<close> operation of a regular expression with the flag \<open>i\<close> and without
  the flag \<open>u\<close>: the upper case of the code unit when that is one code unit. The result
  is a code unit number, since two characters leave the range (255 goes to 376 and the
  micro sign 181 to 924); the sharp s 223 has a two-unit upper case and stays.
\<close>

definition canonicalize :: "char \<Rightarrow> nat" where
  "canonicalize c = (let n = of_char c :: nat in
     if (97 \<le> n \<and> n \<le> 122) \<or> (224 \<le> n \<and> n \<le> 254 \<and> n \<noteq> 247) then n - 32
     else if n = 255 then 376 else if n = 181 then 924 else n)"

definition backslash :: char where
  "backslash = CHR 0x5C"

text \<open>
  The fourteen characters of the class \<open>[.*+?^${}()|[\]\\]\<close> that the program escapes.
  They are exactly the syntax characters of the pattern grammar.
\<close>

definition is_meta :: "char \<Rightarrow> bool" where
  "is_meta c = (c \<in> set ''.*+?^${}()|[]'' \<or> c = backslash)"

subsection \<open>Escaping and joining patterns\<close>

text \<open>\<open>s.replace(/[.*+?^${}()|[\]\\]/g, '\\$&')\<close>: a backslash before each such character.\<close>

fun escape :: "string \<Rightarrow> string" where
  "escape [] = []"
| "escape (c # cs) = (if is_meta c then backslash # c # escape cs else c # escape cs)"

text \<open>\<open>Array.prototype.join\<close>.\<close>

fun join :: "string \<Rightarrow> string list \<Rightarrow> string" where
  "join sep [] = []"
| "join sep [x] = x"
| "join sep (x # y # ys) = x @ sep @ join sep (y # ys)"

subsection \<open>The regular expression engine on the fragment the program uses\<close>

datatype error = PatternFailure

text \<open>
  \<open>new RegExp(source, 'gi')\<close>. The program only builds sources of the shape
  \<open>(A1|...|An)\<close>: one capturing group around a disjunction whose alternatives are
  sequences of pattern characters and of escaped syntax characters. The constructor is
  modelled on that fragment: it returns the alternatives as the literal strings they
  match, and reports every other source as a failure (the engine would either throw a
  SyntaxError or build an expression outside the fragment). That the program never
  leaves the fragment is proved below (\<open>RegExp_new_source\<close>).
\<close>

fun add_char :: "char \<Rightarrow> string list \<Rightarrow> string list" where
  "add_char c [] = [[c]]"
| "add_char c (a # as) = (c # a) # as"

fun parse_disjunction :: "string \<Rightarrow> error + string list" where
  "parse_disjunction [] = Inl PatternFailure"
| "parse_disjunction (c # cs) =
     (if c = CHR '')'' then (if cs = [] then Inr [[]] else Inl PatternFailure)
      else if c = CHR ''|'' then
        (case parse_disjunction cs of
           Inl e \<Rightarrow> Inl e
         | Inr alts \<Rightarrow> Inr ([] # alts))
      else if c = backslash then
        (case cs of
           [] \<Rightarrow> Inl PatternFailure
         | d # ds \<Rightarrow>
             if is_meta d then
               (case parse_disjunction ds of
                  Inl e \<Rightarrow> Inl e
                | Inr alts \<Rightarrow> Inr (add_char d alts))
             else Inl PatternFailure)
      else if is_meta c then Inl PatternFailure
      else
        (case parse_disjunction cs of
           Inl e \<Rightarrow> Inl e
         | Inr alts \<Rightarrow> Inr (add_char c alts)))"

definition RegExp_new :: "string \<Rightarrow> error + string list" where
  "RegExp_new source =
     (case source of
        [] \<Rightarrow> Inl PatternFailure
      | c # cs \<Rightarrow> if c = CHR ''('' then parse_disjunction cs else Inl PatternFailure)"

text \<open>
  A matcher is run at one position of the text and either fails or returns the length
  of the match that starts there.
\<close>

type_synonym matcher = "string \<Rightarrow> nat \<Rightarrow> nat option"

text \<open>A literal matches at \<open>q\<close> when the text continues with it, up to \<open>Canonicalize\<close>.\<close>

definition matches_literal_at :: "string \<Rightarrow> string \<Rightarrow> nat \<Rightarrow> bool" where
  "matches_literal_at lit text q =
     (q + length lit \<le> length text \<and>
      map canonicalize (take (length lit) (drop q text)) = map canonicalize lit)"

text \<open>A disjunction tries its alternatives from left to right; the first that matches wins.\<close>

fun match_alternatives :: "string list \<Rightarrow> matcher" where
  "match_alternatives [] text q = None"
| "match_alternatives (a # as) text q =
     (if matches_literal_at a text q then Some (length a) else match_alternatives as text q)"

text \<open>The expression \<open>/\s+/\<close>: the longest run of whitespace at \<open>q\<close>, of length at least 1.\<close>

definition match_whitespace :: matcher where
  "match_whitespace text q =
     (let n = length (takeWhile is_whitespace (drop q text))
      in if n = 0 then None else Some n)"

definition substring :: "string \<Rightarrow> nat \<Rightarrow> nat \<Rightarrow> string" where
  "substring S from to = take (to - from) (drop from S)"

text \<open>
  \<open>String.prototype.split\<close> with a regular expression separator (the \<open>@@split\<close> method
  of the expression). \<open>p\<close> is the end of the last separator, \<open>q\<close> the position tried
  next. A match that ends at \<open>p\<close> is skipped; otherwise the piece before the match is
  emitted, followed by the captured substring when the expression has a capturing group
  (\<open>captures\<close>; in the program the group spans the whole match).
\<close>

function split_loop :: "matcher \<Rightarrow> bool \<Rightarrow> string \<Rightarrow> nat \<Rightarrow> nat \<Rightarrow> string list" where
  "split_loop m captures S p q =
     (if q < length S then
        (case m S q of
           None \<Rightarrow> split_loop m captures S p (q + 1)
         | Some n \<Rightarrow>
             if min (q + n) (length S) = p then split_loop m captures S p (q + 1)
             else substring S p q #
                  (if captures then [substring S q (q + n)] else []) @
                  split_loop m captures S (min (q + n) (length S)) (min (q + n) (length S)))
      else [substring S p (length S)])"
  by pat_completeness auto
termination
  by (relation "measure (\<lambda>(m, captures, S, p, q). 2 * (length S - q) + (if p = q then 0 else 1))")
     (auto split: if_splits)

declare split_loop.simps [simp del]

definition split :: "matcher \<Rightarrow> bool \<Rightarrow> string \<Rightarrow> string list" where
  "split m captures S =
     (if length S = 0 then (case m S 0 of Some n \<Rightarrow> [] | None \<Rightarrow> [S])
      else split_loop m captures S 0 0)"

text \<open>
  The search of \<open>RegExp.prototype.exec\<close>: the first position from \<open>lastIndex\<close> on, the end
  of the text included, at which the matcher succeeds.
\<close>

function regexp_search :: "matcher \<Rightarrow> string \<Rightarrow> nat \<Rightarrow> (nat \<times> nat) option" where
  "regexp_search m S i =
     (if length S < i then None
      else (case m S i of
              Some n \<Rightarrow> Some (i, n)
            | None \<Rightarrow> regexp_search m S (i + 1)))"
  by pat_completeness auto
termination
  by (relation "measure (\<lambda>(m, S, i). Suc (length S) - i)") auto

declare regexp_search.simps [simp del]

subsection \<open>Pattern lists of the two terms\<close>

text \<open>The set \<open>commonWords\<close> of the component: words that are not highlighted on their own.\<close>

definition commonWords :: "string set" where
  "commonWords = set
     [''the'', ''and'', ''or'', ''to'', ''from'', ''in'', ''on'', ''at'', ''by'', ''for'', ''with'',
      ''about'', ''as'', ''into'', ''through'', ''during'', ''before'', ''after'', ''above'',
      ''below'', ''between'', ''under'', ''since'', ''without'', ''within'', ''of'', ''off'',
      ''out'', ''over'', ''up'', ''down'', ''near'', ''along'', ''among'', ''across'', ''behind'',
      ''beyond'', ''plus'', ''except'', ''but'', ''per'', ''via'', ''upon'', ''against'']"

text \<open>
  A term is \<open>string | null\<close> (or undefined), modelled as \<^typ>\<open>string option\<close>. The tests
  \<open>if (highlightTerm)\<close> and \<open>!term\<close> read its truthiness: present and not empty.
\<close>

definition truthy :: "string option \<Rightarrow> bool" where
  "truthy t = (case t of None \<Rightarrow> False | Some s \<Rightarrow> s \<noteq> [])"

text \<open>
  The callback of \<open>forEach\<close> in the effect: a word of at least three characters whose
  lower case is no common word is pushed, escaped, onto the pattern array.
\<close>

definition push_word :: "string list \<Rightarrow> string \<Rightarrow> string list" where
  "push_word patterns word =
     (if 3 \<le> length word \<and> toLowerCase word \<notin> commonWords
      then patterns @ [escape word] else patterns)"

text \<open>
  The array \<open>primaryPatterns\<close> (and, by the same code, \<open>secondaryPatterns\<close>) of the
  effect: empty for a falsy term; otherwise the escaped term, then the escaped words of
  \<open>term.split(/\s+/)\<close> that pass the test, in split order.
\<close>

definition term_patterns :: "string option \<Rightarrow> string list" where
  "term_patterns t =
     (case t of
        None \<Rightarrow> []
      | Some s \<Rightarrow>
          if s = [] then []
          else foldl push_word [escape s] (split match_whitespace False s))"

text \<open>The source text of the expression: \<open>`(${patterns.join('|')})`\<close>.\<close>

definition regexp_source :: "string list \<Rightarrow> string" where
  "regexp_source patterns = ''('' @ join ''|'' patterns @ '')''"

subsection \<open>JavaScript numbers\<close>

text \<open>
  A JavaScript Number is an IEEE 754 double: NaN, an infinity, or a finite double, given
  here by the real number it stands for (the sign of zero is not tracked). The
  arithmetic operators compute the exact result and round it to the nearest double,
  ties to the even significand.
\<close>

datatype js_number = NaN | PosInfinity | NegInfinity | Num real

text \<open>
  The binade of a non-negative real \<open>x\<close>: the largest power of two \<open>p\<close> with \<open>p \<le> x\<close>,
  kept between \<open>2^-1022\<close> (below it the doubles are subnormal and keep the spacing of
  the smallest normal binade) and \<open>2^1023\<close>. The search goes up from 1 or down from
  1/2; the flag tells that the largest binade was reached. The doubles of the binade
  are the multiples of \<open>p / 2^52\<close>.
\<close>

fun binade_up :: "nat \<Rightarrow> real \<Rightarrow> real \<Rightarrow> real \<times> bool" where
  "binade_up 0 p x = (p, True)"
| "binade_up (Suc k) p x = (if x < 2 * p then (p, False) else binade_up k (2 * p) x)"

fun binade_down :: "nat \<Rightarrow> real \<Rightarrow> real \<Rightarrow> real \<times> bool" where
  "binade_down 0 p x = (p, False)"
| "binade_down (Suc k) p x = (if p \<le> x then (p, False) else binade_down k (p / 2) x)"

definition binade :: "real \<Rightarrow> real \<times> bool" where
  "binade x = (if 1 \<le> x then binade_up 1023 1 x else binade_down 1021 (1 / 2) x)"

text \<open>Rounding to the nearest integer, a tie to the even one.\<close>

definition round_half_even :: "real \<Rightarrow> int" where
  "round_half_even x =
     (let f = \<lfloor>x\<rfloor> in
      if x - of_int f < 1 / 2 then f
      else if 1 / 2 < x - of_int f then f + 1
      else if even f then f else f + 1)"

text \<open>
  The double nearest to a real: the significand \<open>m\<close> is \<open>x\<close> in units of the binade's
  spacing, rounded (\<open>4503599627370496\<close> is \<open>2^52\<close> and \<open>9007199254740992\<close> is \<open>2^53\<close>).
  A result of magnitude \<open>2^1024\<close> or more is an infinity.
\<close>

definition to_double :: "real \<Rightarrow> js_number" where
  "to_double x =
     (if x = 0 then Num 0
      else
        (case binade \<bar>x\<bar> of (p, largest) \<Rightarrow>
           let m = round_half_even (x * 4503599627370496 / p)
           in if largest \<and> 9007199254740992 \<le> \<bar>m\<bar>
              then (if 0 < m then PosInfinity else NegInfinity)
              else Num (of_int m * p / 4503599627370496)))"

text \<open>
  The operator \<open>/\<close> on two non-negative integers below \<open>2^53\<close> (which are doubles), as
  in \<open>match.index / textLength\<close>, and the operator \<open>*\<close>.
\<close>

definition js_divide :: "nat \<Rightarrow> nat \<Rightarrow> js_number" where
  "js_divide a b =
     (if b = 0 then (if a = 0 then NaN else PosInfinity)
      else to_double (real a / real b))"

fun js_multiply :: "js_number \<Rightarrow> js_number \<Rightarrow> js_number" where
  "js_multiply (Num a) (Num b) = to_double (a * b)"
| "js_multiply NaN y = NaN"
| "js_multiply x NaN = NaN"
| "js_multiply PosInfinity (Num b) = (if 0 < b then PosInfinity else if b < 0 then NegInfinity else NaN)"
| "js_multiply NegInfinity (Num b) = (if 0 < b then NegInfinity else if b < 0 then PosInfinity else NaN)"
| "js_multiply (Num a) PosInfinity = (if 0 < a then PosInfinity else if a < 0 then NegInfinity else NaN)"
| "js_multiply (Num a) NegInfinity = (if 0 < a then NegInfinity else if a < 0 then PosInfinity else NaN)"
| "js_multiply PosInfinity PosInfinity = PosInfinity"
| "js_multiply PosInfinity NegInfinity = NegInfinity"
| "js_multiply NegInfinity PosInfinity = NegInfinity"
| "js_multiply NegInfinity NegInfinity = PosInfinity"

text \<open>The largest double below 1.\<close>

definition below_one :: real where
  "below_one = 1 - 1 / 2 ^ 53"

subsection \<open>The effect that computes the match positions\<close>

datatype family = primary | secondary

text \<open>
  The interface \<open>MatchPosition\<close>; the fields are \<open>index\<close>, \<open>term\<close>, \<open>type\<close> and
  \<open>percentage\<close>. The percentage is a JavaScript number.
\<close>

record MatchPosition =
  mp_index :: nat
  mp_term :: string
  mp_type :: family
  mp_percentage :: js_number

text \<open>
  The loop \<open>while ((match = regex.exec(documentText)) !== null) positions.push(...)\<close>.
  With the flag \<open>g\<close> each call of \<open>exec\<close> searches from \<open>lastIndex\<close> and moves
  \<open>lastIndex\<close> to the end of the match. A match of length 0 leaves \<open>lastIndex\<close> where it
  is, and the loop never ends: the loop is a partial function, \<open>None\<close> when it does not
  return.
\<close>

partial_function (option) exec_loop ::
  "matcher \<Rightarrow> string \<Rightarrow> family \<Rightarrow> nat \<Rightarrow> MatchPosition list \<Rightarrow> MatchPosition list option" where
  "exec_loop m documentText fam lastIndex positions =
     (case regexp_search m documentText lastIndex of
        None \<Rightarrow> Some positions
      | Some (i, n) \<Rightarrow>
          exec_loop m documentText fam (i + n)
            (positions @
              [\<lparr>mp_index = i,
                mp_term = substring documentText i (i + n),
                mp_type = fam,
                mp_percentage =
                  js_multiply (js_divide i (length documentText)) (Num 100)\<rparr>]))"

declare exec_loop.simps [code]

text \<open>
  One family's block of the effect: nothing when the pattern array is empty; otherwise
  the expression is built (which may throw) and the loop is run on the shared array
  \<open>positions\<close>. The result is \<open>None\<close> when the loop does not return, \<open>Some (Inl e)\<close> when
  the constructor throws, \<open>Some (Inr positions)\<close> otherwise.
\<close>

definition scan_family ::
  "string list \<Rightarrow> family \<Rightarrow> string \<Rightarrow> MatchPosition list \<Rightarrow> (error + MatchPosition list) option" where
  "scan_family patterns fam documentText positions =
     (if 0 < length patterns then
        (case RegExp_new (regexp_source patterns) of
           Inl e \<Rightarrow> Some (Inl e)
         | Inr alts \<Rightarrow>
             map_option Inr (exec_loop (match_alternatives alts) documentText fam 0 positions))
      else Some (Inr positions))"

text \<open>
  The effect with the dependencies \<open>[documentText, highlightTerm, secondaryHighlightTerm]\<close>.
  Its last argument is the state \<open>matchPositions\<close> before the effect runs and its result
  is that state afterwards. For a falsy \<open>documentText\<close> the effect returns at once,
  without calling \<open>setMatchPositions\<close>. \<open>Array.prototype.sort\<close> is stable; \<open>sort_key\<close> is
  the stable sort by the key \<open>index\<close>.
\<close>

definition matchPositions_effect ::
  "string \<Rightarrow> string option \<Rightarrow> string option \<Rightarrow> MatchPosition list \<Rightarrow>
   (error + MatchPosition list) option" where
  "matchPositions_effect documentText highlightTerm secondaryHighlightTerm matchPositions =
     (if documentText = [] then Some (Inr matchPositions)
      else
        (case scan_family (term_patterns highlightTerm) primary documentText [] of
           None \<Rightarrow> None
         | Some (Inl e) \<Rightarrow> Some (Inl e)
         | Some (Inr positions) \<Rightarrow>
             (case scan_family (term_patterns secondaryHighlightTerm) secondary documentText
                     positions of
                None \<Rightarrow> None
              | Some (Inl e) \<Rightarrow> Some (Inl e)
              | Some (Inr positions') \<Rightarrow> Some (Inr (sort_key mp_index positions')))))"

subsection \<open>The function highlightText\<close>

text \<open>
  The elements \<open>highlightText\<close> returns: a plain \<open>span\<close> with its text, or a \<open>mark\<close>
  with its colour (yellow for primary, orange for secondary), the offset \<open>partStart\<close>
  under which its \<open>ref\<close> callback registers it in \<open>matchRefs\<close>, and its text.
\<close>

datatype element = Span string | Mark family nat string

fun element_text :: "element \<Rightarrow> string" where
  "element_text (Span s) = s"
| "element_text (Mark fam k s) = s"

fun positionKey :: "element \<Rightarrow> nat option" where
  "positionKey (Span s) = None"
| "positionKey (Mark fam k s) = Some k"

text \<open>The keys registered by a list of elements, in order.\<close>

definition mark_keys :: "element list \<Rightarrow> nat list" where
  "mark_keys els = concat (map (\<lambda>el. case positionKey el of None \<Rightarrow> [] | Some k \<Rightarrow> [k]) els)"

text \<open>
  The callback of \<open>forEach\<close> in \<open>highlightText\<close>: a passing word is added in lower case
  to the family's word set and pushed, escaped, onto the one array \<open>patterns\<close>.
\<close>

definition add_word :: "string set \<times> string list \<Rightarrow> string \<Rightarrow> string set \<times> string list" where
  "add_word acc word =
     (if 3 \<le> length word \<and> toLowerCase word \<notin> commonWords
      then (insert (toLowerCase word) (fst acc), snd acc @ [escape word]) else acc)"

text \<open>The block \<open>if (term) { ... }\<close>: the family's word set and the extended array.\<close>

definition add_term :: "string option \<Rightarrow> string list \<Rightarrow> string set \<times> string list" where
  "add_term t patterns =
     (case t of
        None \<Rightarrow> ({}, patterns)
      | Some s \<Rightarrow>
          if s = [] then ({}, patterns)
          else foldl add_word ({}, patterns @ [escape s]) (split match_whitespace False s))"

text \<open>
  The test \<open>term && (partLower === term.toLowerCase() || words.has(partLower))\<close>.
\<close>

definition belongs_to :: "string option \<Rightarrow> string set \<Rightarrow> string \<Rightarrow> bool" where
  "belongs_to t words partLower =
     (case t of
        None \<Rightarrow> False
      | Some s \<Rightarrow> s \<noteq> [] \<and> (partLower = toLowerCase s \<or> partLower \<in> words))"

text \<open>
  The callback of \<open>parts.map\<close>, with the running \<open>currentIndex\<close>: the primary test comes
  first, then the secondary one, then the plain span.
\<close>

fun render_parts ::
  "string option \<Rightarrow> string set \<Rightarrow> string option \<Rightarrow> string set \<Rightarrow> nat \<Rightarrow> string list \<Rightarrow>
   element list" where
  "render_parts primaryTerm primaryWords secondaryTerm secondaryWords currentIndex [] = []"
| "render_parts primaryTerm primaryWords secondaryTerm secondaryWords currentIndex (part # parts) =
     (if belongs_to primaryTerm primaryWords (toLowerCase part)
        then Mark primary currentIndex part
      else if belongs_to secondaryTerm secondaryWords (toLowerCase part)
        then Mark secondary currentIndex part
      else Span part) #
     render_parts primaryTerm primaryWords secondaryTerm secondaryWords
       (currentIndex + length part) parts"

text \<open>
  The body of the \<open>try\<close> block. The constructor of the expression is the one statement
  that can throw; it is a parameter here, so that the \<open>catch\<close> can be exercised.
\<close>

definition highlight_try ::
  "(string \<Rightarrow> error + string list) \<Rightarrow> string \<Rightarrow> string option \<Rightarrow> string option \<Rightarrow>
   error + element list" where
  "highlight_try ctor text primaryTerm secondaryTerm =
     (let (primaryWords, patterns1) = add_term primaryTerm [];
          (secondaryWords, patterns) = add_term secondaryTerm patterns1
      in case ctor (regexp_source patterns) of
           Inl e \<Rightarrow> Inl e
         | Inr alts \<Rightarrow>
             Inr (render_parts primaryTerm primaryWords secondaryTerm secondaryWords 0
                    (split (match_alternatives alts) True text)))"

definition highlightText_with ::
  "(string \<Rightarrow> error + string list) \<Rightarrow> string \<Rightarrow> string option \<Rightarrow> string option \<Rightarrow>
   element list" where
  "highlightText_with ctor text primaryTerm secondaryTerm =
     (if \<not> truthy primaryTerm \<and> \<not> truthy secondaryTerm then [Span text]
      else
        (case highlight_try ctor text primaryTerm secondaryTerm of
           Inl e \<Rightarrow> [Span text]
         | Inr els \<Rightarrow> els))"

text \<open>\<open>highlightText\<close> as the component runs it, with the engine's constructor.\<close>

definition highlightText :: "string \<Rightarrow> string option \<Rightarrow> string option \<Rightarrow> element list" where
  "highlightText text primaryTerm secondaryTerm =
     highlightText_with RegExp_new text primaryTerm secondaryTerm"

subsection \<open>Auxiliary notions for the proofs\<close>

text \<open>
  The literal strings behind a term's patterns, before escaping: the term itself and
  its words that pass the test of the \<open>forEach\<close> callbacks.
\<close>

definition significant :: "string \<Rightarrow> bool" where
  "significant word = (3 \<le> length word \<and> toLowerCase word \<notin> commonWords)"

definition term_words :: "string \<Rightarrow> string list" where
  "term_words s = filter significant (split match_whitespace False s)"

definition term_literals :: "string option \<Rightarrow> string list" where
  "term_literals t =
     (case t of None \<Rightarrow> [] | Some s \<Rightarrow> if s = [] then [] else s # term_words s)"

text \<open>The entry that the loop pushes for a match of length \<open>n\<close> at \<open>i\<close>.\<close>

definition position_of :: "string \<Rightarrow> family \<Rightarrow> nat \<times> nat \<Rightarrow> MatchPosition" where
  "position_of documentText fam = (\<lambda>(i, n).
     \<lparr>mp_index = i,
      mp_term = substring documentText i (i + n),
      mp_type = fam,
      mp_percentage =
                  js_multiply (js_divide i (length documentText)) (Num 100)\<rparr>)"

text \<open>
  The successive matches (offset and length) that repeated searching finds from \<open>i\<close> on,
  as long as they are not empty. The guards beyond \<open>n = 0\<close> never fire (a search from
  \<open>i\<close> answers between \<open>i\<close> and the end of the text); they make the recursion
  evidently terminating.
\<close>

function occurrences :: "matcher \<Rightarrow> string \<Rightarrow> nat \<Rightarrow> (nat \<times> nat) list" where
  "occurrences m S i =
     (case regexp_search m S i of
        None \<Rightarrow> []
      | Some (j, n) \<Rightarrow>
          if n = 0 \<or> j < i \<or> length S < j then []
          else (j, n) # occurrences m S (j + n))"
  by pat_completeness auto
termination
  by (relation "measure (\<lambda>(m, S, i). Suc (length S) - i)") auto

declare occurrences.simps [simp del]

text \<open>
  The pieces that splitting at a list of matches yields from \<open>p\<close> on: the text before
  each match, the match, and at the end the rest of the text.
\<close>

fun pieces :: "string \<Rightarrow> nat \<Rightarrow> (nat \<times> nat) list \<Rightarrow> string list" where
  "pieces S p [] = [substring S p (length S)]"
| "pieces S p ((j, n) # os) = substring S p j # substring S j (j + n) # pieces S (j + n) os"

text \<open>
  The order of the position index: by offset, and at equal offsets never a secondary
  entry before a primary one.
\<close>

definition index_order :: "MatchPosition \<Rightarrow> MatchPosition \<Rightarrow> bool" where
  "index_order a b =
     (mp_index a < mp_index b \<or>
      (mp_index a = mp_index b \<and> (mp_type a = primary \<or> mp_type b = secondary)))"

text \<open>
  From the canonical form of a code unit back to its lower case, on code unit numbers.
\<close>

definition uncanon :: "nat \<Rightarrow> nat" where
  "uncanon k = (if (65 \<le> k \<and> k \<le> 90) \<or> (192 \<le> k \<and> k \<le> 222 \<and> k \<noteq> 215) then k + 32
     else if k = 376 then 255 else if k = 924 then 181 else k)"

text \<open>A match that starts at or after \<open>i\<close>, is not empty and lies in the text.\<close>

definition in_text :: "string \<Rightarrow> nat \<Rightarrow> nat \<times> nat \<Rightarrow> bool" where
  "in_text S i = (\<lambda>(j, n). i \<le> j \<and> 0 < n \<and> j + n \<le> length S)"

text \<open>The word set that \<open>highlightText\<close> builds for a term, in terms of its literals.\<close>

definition word_set :: "string option \<Rightarrow> string set" where
  "word_set t = toLowerCase ` set (tl (term_literals t))"

text \<open>The matches that the effect's scan of one family finds in the text.\<close>

definition family_occurrences :: "string option \<Rightarrow> string \<Rightarrow> (nat \<times> nat) list" where
  "family_occurrences t text = occurrences (match_alternatives (term_literals t)) text 0"

text \<open>Two entries of the index overlap when their matched stretches of the text meet.\<close>

definition overlapping :: "MatchPosition \<Rightarrow> MatchPosition \<Rightarrow> bool" where
  "overlapping a b =
     (mp_index a < mp_index b + length (mp_term b) \<and>
      mp_index b < mp_index a + length (mp_term a))"

text \<open>Two entries have the same extent when they start together and are equally long.\<close>

definition same_extent :: "MatchPosition \<Rightarrow> MatchPosition \<Rightarrow> bool" where
  "same_extent a b = (mp_index a = mp_index b \<and> length (mp_term a) = length (mp_term b))"

text \<open>
  The test of \<open>highlightText\<close> for the entry's own family, applied to the entry's matched
  text: its lower case is the lower case of the family's term or is in the family's
  word set.
\<close>

definition passes_own_test :: "string option \<Rightarrow> string option \<Rightarrow> MatchPosition \<Rightarrow> bool" where
  "passes_own_test primaryTerm secondaryTerm mp =
     (case mp_type mp of
        primary \<Rightarrow>
          belongs_to primaryTerm (fst (add_term primaryTerm [])) (toLowerCase (mp_term mp))
      | secondary \<Rightarrow>
          belongs_to secondaryTerm (fst (add_term secondaryTerm [])) (toLowerCase (mp_term mp)))"

text \<open>Occurrences of two scans agree when those that overlap are the same.\<close>

definition agree :: "(nat \<times> nat) list \<Rightarrow> (nat \<times> nat) list \<Rightarrow> bool" where
  "agree as bs =
     (\<forall>a\<in>set as. \<forall>b\<in>set bs. fst a < fst b + snd b \<and> fst b < fst a + snd a \<longrightarrow> a = b)"

section \<open>Properties\<close>

subsection \<open>Lower case and canonical form\<close>

lemma of_char_toLowerCase_char:
  "of_char (toLowerCase_char c) = (let n = of_char c :: nat in
     if (65 \<le> n \<and> n \<le> 90) \<or> (192 \<le> n \<and> n \<le> 222 \<and> n \<noteq> 215) then n + 32 else n)"
proof -
  have "of_char c < (256::nat)" by simp
  then show ?thesis
    by (simp add: toLowerCase_char_def Let_def)
qed

lemma canonicalize_toLowerCase_char: "canonicalize (toLowerCase_char c) = canonicalize c"
proof -
  have "of_char c < (256::nat)" by simp
  then show ?thesis
    unfolding canonicalize_def of_char_toLowerCase_char Let_def by (simp; linarith?)
qed

lemma uncanon_canonicalize: "uncanon (canonicalize c) = of_char (toLowerCase_char c)"
proof -
  have "of_char c < (256::nat)" by simp
  then show ?thesis
    unfolding canonicalize_def of_char_toLowerCase_char Let_def uncanon_def by (simp; linarith?)
qed

lemma canonicalize_eq_iff:
  "canonicalize a = canonicalize b \<longleftrightarrow> toLowerCase_char a = toLowerCase_char b"
proof
  assume "canonicalize a = canonicalize b"
  then have "uncanon (canonicalize a) = uncanon (canonicalize b)" by simp
  then have "(of_char (toLowerCase_char a) :: nat) = of_char (toLowerCase_char b)"
    by (simp only: uncanon_canonicalize)
  then show "toLowerCase_char a = toLowerCase_char b" by simp
next
  assume "toLowerCase_char a = toLowerCase_char b"
  then have "canonicalize (toLowerCase_char a) = canonicalize (toLowerCase_char b)" by simp
  then show "canonicalize a = canonicalize b" by (simp only: canonicalize_toLowerCase_char)
qed

lemma map_canonicalize_eq_iff:
  "map canonicalize xs = map canonicalize ys \<longleftrightarrow> toLowerCase xs = toLowerCase ys"
proof (induction xs arbitrary: ys)
  case Nil
  then show ?case by (auto simp: toLowerCase_def)
next
  case (Cons x xs)
  then show ?case
    by (cases ys) (auto simp: toLowerCase_def canonicalize_eq_iff)
qed

lemma length_toLowerCase [simp]: "length (toLowerCase s) = length s"
  by (simp add: toLowerCase_def)

lemma toLowerCase_Nil_iff [simp]: "toLowerCase s = [] \<longleftrightarrow> s = []"
  by (simp add: toLowerCase_def)

subsection \<open>The constructor accepts every source the program builds\<close>

lemma is_meta_special [simp]:
  "is_meta (CHR '')'')" "is_meta (CHR ''|'')" "is_meta backslash"
  by (simp_all add: is_meta_def)

lemma backslash_neq [simp]: "backslash \<noteq> CHR '')''" "backslash \<noteq> CHR ''|''"
  by (simp_all add: backslash_def)

lemma parse_disjunction_escape:
  "parse_disjunction rest = Inr (b # bs) \<Longrightarrow>
   parse_disjunction (escape a @ rest) = Inr ((a @ b) # bs)"
proof (induction a)
  case Nil
  then show ?case by simp
next
  case (Cons c cs)
  show ?case
  proof (cases "is_meta c")
    case True
    with Cons show ?thesis by simp
  next
    case False
    then have "c \<noteq> CHR '')''" "c \<noteq> CHR ''|''" "c \<noteq> backslash" by auto
    with False Cons show ?thesis by simp
  qed
qed

lemma parse_disjunction_join:
  "lits \<noteq> [] \<Longrightarrow> parse_disjunction (join ''|'' (map escape lits) @ '')'') = Inr lits"
proof (induction lits rule: induct_list012)
  case 1
  then show ?case by simp
next
  case (2 x)
  have "parse_disjunction '')'' = Inr [[]]" by simp
  from parse_disjunction_escape [OF this, of x] show ?case by simp
next
  case (3 x y zs)
  then have "parse_disjunction (join ''|'' (map escape (y # zs)) @ '')'') = Inr (y # zs)"
    by simp
  then have "parse_disjunction (''|'' @ join ''|'' (map escape (y # zs)) @ '')'') = Inr ([] # y # zs)"
    by simp
  from parse_disjunction_escape [OF this, of x] show ?case by simp
qed

lemma RegExp_new_source:
  "lits \<noteq> [] \<Longrightarrow> RegExp_new (regexp_source (map escape lits)) = Inr lits"
  by (simp add: RegExp_new_def regexp_source_def parse_disjunction_join)

subsection \<open>The pattern arrays\<close>

lemma foldl_push_word:
  "foldl push_word acc ws = acc @ map escape (filter significant ws)"
  by (induction ws arbitrary: acc) (simp_all add: push_word_def significant_def)

lemma term_patterns_literals: "term_patterns t = map escape (term_literals t)"
  by (simp add: term_patterns_def term_literals_def term_words_def foldl_push_word
      split: option.splits)

lemma foldl_add_word:
  "foldl add_word acc ws =
     (fst acc \<union> toLowerCase ` set (filter significant ws),
      snd acc @ map escape (filter significant ws))"
  by (induction ws arbitrary: acc) (auto simp: add_word_def significant_def)

lemma add_term_literals:
  "add_term t patterns =
     (toLowerCase ` set (tl (term_literals t)), patterns @ map escape (term_literals t))"
  by (simp add: add_term_def term_literals_def term_words_def foldl_add_word
      split: option.splits)

lemma term_literals_nonempty: "[] \<notin> set (term_literals t)"
  by (auto simp: term_literals_def term_words_def significant_def split: option.splits)

lemma term_literals_Nil_iff: "term_literals t = [] \<longleftrightarrow> \<not> truthy t"
  by (simp add: term_literals_def truthy_def split: option.splits)

subsection \<open>Matching a disjunction of literals\<close>

lemma match_alternatives_Some:
  "match_alternatives alts text q = Some n \<Longrightarrow>
   \<exists>a\<in>set alts. n = length a \<and> matches_literal_at a text q"
  by (induction alts) (auto split: if_splits)

lemma match_alternatives_None:
  "match_alternatives alts text q = None \<Longrightarrow> a \<in> set alts \<Longrightarrow> \<not> matches_literal_at a text q"
  by (induction alts) (auto split: if_splits)

lemma match_alternatives_proper:
  assumes "[] \<notin> set alts" and "match_alternatives alts text q = Some n"
  shows "0 < n \<and> q + n \<le> length text"
proof -
  from match_alternatives_Some [OF assms(2)] obtain a
    where a: "a \<in> set alts" "n = length a" "matches_literal_at a text q" by blast
  with assms(1) have "a \<noteq> []" by auto
  with a show ?thesis by (simp add: matches_literal_at_def)
qed

subsection \<open>Searching and the loop of the effect\<close>

lemma regexp_search_Some:
  "regexp_search m S i = Some (j, n) \<Longrightarrow> i \<le> j \<and> j \<le> length S \<and> m S j = Some n"
proof (induction m S i rule: regexp_search.induct)
  case (1 m S i)
  note unfold = regexp_search.simps [of m S i]
  show ?case
  proof (cases "length S < i")
    case True
    with "1.prems" show ?thesis by (simp add: unfold)
  next
    case False
    show ?thesis
    proof (cases "m S i")
      case None
      with False "1.prems" have "regexp_search m S (i + 1) = Some (j, n)"
        by (simp add: unfold)
      from "1.IH" [OF False None this] show ?thesis by simp
    next
      case (Some k)
      with False "1.prems" show ?thesis by (simp add: unfold)
    qed
  qed
qed

lemma regexp_search_end:
  "length S < i \<Longrightarrow> regexp_search m S i = None"
  by (simp add: regexp_search.simps [of m S i])

lemma regexp_search_skip:
  "m S i = None \<Longrightarrow> regexp_search m S i = regexp_search m S (Suc i)"
  by (simp add: regexp_search.simps [of m S i] regexp_search_end)

lemma regexp_search_hit:
  "i \<le> length S \<Longrightarrow> m S i = Some n \<Longrightarrow> regexp_search m S i = Some (i, n)"
  by (simp add: regexp_search.simps [of m S i])

lemma occurrences_unfold:
  assumes "\<And>q n. m S q = Some n \<Longrightarrow> 0 < n"
  shows "occurrences m S i =
     (case regexp_search m S i of
        None \<Rightarrow> []
      | Some (j, n) \<Rightarrow> (j, n) # occurrences m S (j + n))"
proof (cases "regexp_search m S i")
  case None
  then show ?thesis by (subst occurrences.simps) simp
next
  case (Some jn)
  obtain j n where jn: "jn = (j, n)" by (cases jn)
  from regexp_search_Some [of m S i j n] Some jn
  have "i \<le> j" "j \<le> length S" "m S j = Some n" by simp_all
  moreover from this assms have "0 < n" by blast
  ultimately show ?thesis using Some jn by (subst occurrences.simps) simp
qed

lemma exec_loop_occurrences:
  "(\<And>q n. m S q = Some n \<Longrightarrow> 0 < n) \<Longrightarrow>
   exec_loop m S fam i acc = Some (acc @ map (position_of S fam) (occurrences m S i))"
proof (induction m S i arbitrary: acc rule: occurrences.induct)
  case (1 m S i)
  note pos = "1.prems"
  show ?case
  proof (cases "regexp_search m S i")
    case None
    then show ?thesis
      by (subst exec_loop.simps, subst occurrences.simps) simp
  next
    case (Some jn)
    obtain j n where jn: "jn = (j, n)" by (cases jn)
    from regexp_search_Some [of m S i j n] Some jn
    have b: "i \<le> j" "j \<le> length S" "m S j = Some n" by simp_all
    with pos have n: "0 < n" by blast
    have guard: "\<not> (n = 0 \<or> j < i \<or> length S < j)" using b n by simp
    have "exec_loop m S fam i acc =
          exec_loop m S fam (j + n) (acc @ [position_of S fam (j, n)])"
      using Some jn by (subst exec_loop.simps) (simp add: position_of_def)
    also have "\<dots> = Some ((acc @ [position_of S fam (j, n)]) @
                 map (position_of S fam) (occurrences m S (j + n)))"
      using "1.IH" [OF Some [unfolded jn] refl guard pos] by simp
    also have "\<dots> = Some (acc @ map (position_of S fam) (occurrences m S i))"
      using Some jn by (subst (2) occurrences_unfold [OF pos]) simp_all
    finally show ?thesis .
  qed
qed

lemma occurrences_within:
  "(\<And>q n. m S q = Some n \<Longrightarrow> 0 < n \<and> q + n \<le> length S) \<Longrightarrow>
   \<forall>x\<in>set (occurrences m S i). in_text S i x"
proof (induction m S i rule: occurrences.induct)
  case (1 m S i)
  note proper = "1.prems"
  have pos: "\<And>q n. m S q = Some n \<Longrightarrow> 0 < n" using proper by blast
  show ?case
  proof (cases "regexp_search m S i")
    case None
    then show ?thesis by (subst occurrences.simps) simp
  next
    case (Some jn)
    obtain j n where jn: "jn = (j, n)" by (cases jn)
    from regexp_search_Some [of m S i j n] Some jn
    have b: "i \<le> j" "j \<le> length S" "m S j = Some n" by simp_all
    with proper have n: "0 < n" "j + n \<le> length S" by blast+
    have guard: "\<not> (n = 0 \<or> j < i \<or> length S < j)" using b n by simp
    have IH: "\<forall>x\<in>set (occurrences m S (j + n)). in_text S (j + n) x"
      using "1.IH" [OF Some [unfolded jn] refl guard proper] by simp
    have "\<forall>x\<in>set (occurrences m S (j + n)). in_text S i x"
      using IH b by (auto simp: in_text_def)
    then show ?thesis
      using Some jn b n by (subst occurrences_unfold [OF pos]) (simp_all add: in_text_def)
  qed
qed

lemma occurrences_chain:
  "(\<And>q n. m S q = Some n \<Longrightarrow> 0 < n \<and> q + n \<le> length S) \<Longrightarrow>
   sorted_wrt (\<lambda>a b. fst a + snd a \<le> fst b) (occurrences m S i)"
proof (induction m S i rule: occurrences.induct)
  case (1 m S i)
  note proper = "1.prems"
  have pos: "\<And>q n. m S q = Some n \<Longrightarrow> 0 < n" using proper by blast
  show ?case
  proof (cases "regexp_search m S i")
    case None
    then show ?thesis by (subst occurrences.simps) simp
  next
    case (Some jn)
    obtain j n where jn: "jn = (j, n)" by (cases jn)
    from regexp_search_Some [of m S i j n] Some jn
    have b: "i \<le> j" "j \<le> length S" "m S j = Some n" by simp_all
    with proper have n: "0 < n" "j + n \<le> length S" by blast+
    have guard: "\<not> (n = 0 \<or> j < i \<or> length S < j)" using b n by simp
    have IH: "sorted_wrt (\<lambda>a b. fst a + snd a \<le> fst b) (occurrences m S (j + n))"
      using "1.IH" [OF Some [unfolded jn] refl guard proper] by simp
    have "\<forall>x\<in>set (occurrences m S (j + n)). in_text S (j + n) x"
      using occurrences_within [OF proper] by blast
    then have "\<forall>x\<in>set (occurrences m S (j + n)). j + n \<le> fst x"
      by (auto simp: in_text_def)
    with IH show ?thesis
      using Some jn by (subst occurrences_unfold [OF pos]) simp_all
  qed
qed

subsection \<open>Splitting\<close>

lemma substring_append:
  assumes "p \<le> q"
  shows "substring S p q @ drop q S = drop p S"
proof -
  have "take (q - p) (drop p S) @ drop (q - p) (drop p S) = drop p S"
    by (rule append_take_drop_id)
  moreover have "drop (q - p) (drop p S) = drop q S"
    using assms by simp
  ultimately show ?thesis by (simp only: substring_def)
qed

lemma substring_min:
  "substring S q (q + n) @ drop (min (q + n) (length S)) S = drop q S"
proof (cases "q + n \<le> length S")
  case True
  then show ?thesis using substring_append [of q "q + n" S] by (simp add: min_def)
next
  case False
  then show ?thesis by (simp add: substring_def min_def)
qed

lemma concat_split_loop:
  "c \<Longrightarrow> p \<le> q \<Longrightarrow> concat (split_loop m c S p q) = drop p S"
proof (induction m c S p q rule: split_loop.induct)
  case (1 m c S p q)
  note c = \<open>c\<close>
  show ?case
  proof (cases "q < length S")
    case False
    then show ?thesis by (subst split_loop.simps) (simp add: substring_def)
  next
    case True
    show ?thesis
    proof (cases "m S q")
      case None
      with True "1.IH"(1) "1.prems" show ?thesis
        by (subst split_loop.simps) simp
    next
      case (Some n)
      show ?thesis
      proof (cases "min (q + n) (length S) = p")
        case same: True
        with True Some "1.IH"(2) "1.prems" show ?thesis
          by (subst split_loop.simps) simp
      next
        case other: False
        have "concat (split_loop m c S (min (q + n) (length S)) (min (q + n) (length S)))
              = drop (min (q + n) (length S)) S"
          using "1.IH"(3) [OF True Some other c] by simp
        then have "concat (split_loop m c S p q) =
                   substring S p q @ substring S q (q + n) @ drop (min (q + n) (length S)) S"
          using True Some other c by (subst split_loop.simps) simp
        then show ?thesis
          using "1.prems" by (simp add: substring_min substring_append)
      qed
    qed
  qed
qed

lemma concat_split: "concat (split m True S) = S"
  by (simp add: split_def concat_split_loop split: option.splits)

lemma element_text_render_parts:
  "map element_text (render_parts t pw s sw k parts) = parts"
  by (induction parts arbitrary: k) simp_all

subsection \<open>Coverage\<close>

lemma element_text_highlight_try:
  "highlight_try ctor text t s = Inr els \<Longrightarrow> concat (map element_text els) = text"
  by (auto simp: highlight_try_def Let_def element_text_render_parts concat_split
      split: prod.splits sum.splits)

text \<open>
  Claim C1. For every text and every pair of terms, present or not, the texts of the
  elements that \<open>highlightText\<close> returns, concatenated in order, are the text itself;
  this includes the empty text and the call with both terms absent.
\<close>

theorem highlightText_coverage:
  "concat (map element_text (highlightText text primaryTerm secondaryTerm)) = text"
proof (cases "highlight_try RegExp_new text primaryTerm secondaryTerm")
  case (Inl e)
  then show ?thesis by (simp add: highlightText_def highlightText_with_def)
next
  case (Inr els)
  with element_text_highlight_try [OF Inr] show ?thesis
    by (simp add: highlightText_def highlightText_with_def)
qed

theorem highlightText_coverage_witness:
  "concat (map element_text
     (highlightText ''Income tax applies to gross income.'' (Some ''income tax'') (Some ''gross'')))
   = ''Income tax applies to gross income.'' \<and>
   concat (map element_text (highlightText [] None None)) = []"
  using highlightText_coverage [of "''Income tax applies to gross income.''" "Some ''income tax''" "Some ''gross''"]
    highlightText_coverage [of "[]" None None]
  by simp

subsection \<open>The body of highlightText, with the arrays spelled out\<close>

lemma fst_add_term: "fst (add_term t patterns) = word_set t"
  by (simp add: add_term_literals word_set_def)

lemma highlight_try_literals:
  "highlight_try ctor text t s =
     (case ctor (regexp_source (map escape (term_literals t @ term_literals s))) of
        Inl e \<Rightarrow> Inl e
      | Inr alts \<Rightarrow>
          Inr (render_parts t (word_set t) s (word_set s) 0
                 (split (match_alternatives alts) True text)))"
  unfolding word_set_def by (simp add: highlight_try_def add_term_literals)

lemma RegExp_new_combined:
  "\<exists>alts. RegExp_new (regexp_source (map escape (term_literals t @ term_literals s))) = Inr alts"
proof (cases "term_literals t @ term_literals s = []")
  case True
  then show ?thesis by (simp add: RegExp_new_def regexp_source_def)
next
  case False
  from RegExp_new_source [OF this] show ?thesis by blast
qed

lemma highlight_try_RegExp_new:
  "truthy t \<or> truthy s \<Longrightarrow>
   highlight_try RegExp_new text t s =
     Inr (render_parts t (word_set t) s (word_set s) 0
            (split (match_alternatives (term_literals t @ term_literals s)) True text))"
proof -
  assume "truthy t \<or> truthy s"
  then have "term_literals t @ term_literals s \<noteq> []"
    by (simp add: term_literals_Nil_iff)
  from RegExp_new_source [OF this] show ?thesis
    by (simp add: highlight_try_literals)
qed

lemma highlightText_cases:
  "highlightText text t s =
     (if truthy t \<or> truthy s
      then render_parts t (word_set t) s (word_set s) 0
             (split (match_alternatives (term_literals t @ term_literals s)) True text)
      else [Span text])"
  by (auto simp: highlightText_def highlightText_with_def highlight_try_RegExp_new)

subsection \<open>The catch\<close>

lemma eval_catch:
  "highlight_try (\<lambda>source. Inl PatternFailure) ''x(a+y'' (Some ''(a+'') None = Inl PatternFailure"
  by code_simp

lemma eval_metacharacters:
  "highlightText ''x(a+y'' (Some ''(a+'') None = [Span ''x'', Mark primary 1 ''(a+'', Span ''y'']"
  by code_simp

text \<open>
  Claim C4. \<open>highlightText\<close> returns a list of elements for every text and every pair of
  terms. Whenever the body of its \<open>try\<close> block throws, whatever the constructor of the
  expression does, the result is the whole text as one plain span. With the engine's
  constructor the body does not throw at all: every source the function builds, also
  from a term made of metacharacters, is accepted.
\<close>

theorem highlightText_never_throws:
  "(highlight_try ctor text primaryTerm secondaryTerm = Inl e \<longrightarrow>
      highlightText_with ctor text primaryTerm secondaryTerm = [Span text]) \<and>
   (\<exists>els. highlight_try RegExp_new text primaryTerm secondaryTerm = Inr els)"
proof
  show "highlight_try ctor text primaryTerm secondaryTerm = Inl e \<longrightarrow>
      highlightText_with ctor text primaryTerm secondaryTerm = [Span text]"
    by (simp add: highlightText_with_def)
  from RegExp_new_combined [of primaryTerm secondaryTerm]
  show "\<exists>els. highlight_try RegExp_new text primaryTerm secondaryTerm = Inr els"
    by (auto simp: highlight_try_literals)
qed

theorem highlightText_never_throws_witness:
  "highlight_try (\<lambda>source. Inl PatternFailure) ''x(a+y'' (Some ''(a+'') None = Inl PatternFailure \<and>
   highlightText_with (\<lambda>source. Inl PatternFailure) ''x(a+y'' (Some ''(a+'') None = [Span ''x(a+y''] \<and>
   highlightText ''x(a+y'' (Some ''(a+'') None = [Span ''x'', Mark primary 1 ''(a+'', Span ''y'']"
  using highlightText_never_throws
    [of "\<lambda>source. Inl PatternFailure" "''x(a+y''" "Some ''(a+''" None PatternFailure]
  by (simp add: eval_catch eval_metacharacters)

subsection \<open>Term expansion\<close>

lemma eval_words:
  "filter (\<lambda>word. 3 \<le> length word \<and> toLowerCase word \<notin> commonWords)
     (split match_whitespace False ''the quick fox'') = [''quick'', ''fox'']"
  by code_simp

text \<open>
  Claim C5. For a non-empty phrase the pattern array is the escaped phrase followed by
  the escaped words of the phrase, split at runs of whitespace, that have at least three
  characters and whose lower case is no common word, and by no other word; the
  expression built from the array has the phrase and exactly those words as its literal
  alternatives. The phrase itself is not filtered.
\<close>

theorem term_patterns_expansion:
  "s \<noteq> [] \<Longrightarrow>
   term_patterns (Some s) =
     map escape (s # filter (\<lambda>word. 3 \<le> length word \<and> toLowerCase word \<notin> commonWords)
                        (split match_whitespace False s)) \<and>
   RegExp_new (regexp_source (term_patterns (Some s))) =
     Inr (s # filter (\<lambda>word. 3 \<le> length word \<and> toLowerCase word \<notin> commonWords)
                (split match_whitespace False s))"
proof -
  assume "s \<noteq> []"
  then have lits: "term_literals (Some s) =
      s # filter (\<lambda>word. 3 \<le> length word \<and> toLowerCase word \<notin> commonWords)
            (split match_whitespace False s)"
    by (simp add: term_literals_def term_words_def significant_def [abs_def])
  then have "term_literals (Some s) \<noteq> []" by simp
  from RegExp_new_source [OF this] lits show ?thesis
    by (simp only: term_patterns_literals)
qed

theorem term_patterns_expansion_witness:
  "''the quick fox'' \<noteq> [] \<and>
   term_patterns (Some ''the quick fox'') = [''the quick fox'', ''quick'', ''fox''] \<and>
   RegExp_new (regexp_source (term_patterns (Some ''the quick fox''))) =
     Inr [''the quick fox'', ''quick'', ''fox'']"
  using term_patterns_expansion [of "''the quick fox''"]
  by (auto simp: eval_words is_meta_def backslash_def)

subsection \<open>Classification of the pieces\<close>

lemma render_parts_primary:
  "el \<in> set (render_parts t pw s sw k parts) \<Longrightarrow>
   belongs_to t pw (toLowerCase (element_text el)) \<Longrightarrow>
   \<exists>k'. el = Mark primary k' (element_text el)"
  by (induction parts arbitrary: k) (auto split: if_splits)

lemma eval_tax:
  "highlightText ''Income tax'' (Some ''tax'') (Some ''tax'') =
     [Span ''Income '', Mark primary 7 ''tax'', Span []]"
  by code_simp

lemma eval_tax_belongs:
  "belongs_to (Some ''tax'') (fst (add_term (Some ''tax'') [])) (toLowerCase ''tax'')"
  by code_simp

text \<open>
  Claim C7. The primary test is applied first: an element of the result whose text
  passes the primary test (its lower case is the lower case of the primary term or is
  in the primary word set) is a primary mark, whether or not it passes the secondary
  test as well.
\<close>

theorem primary_before_secondary:
  "truthy primaryTerm \<Longrightarrow>
   el \<in> set (highlightText text primaryTerm secondaryTerm) \<Longrightarrow>
   belongs_to primaryTerm (fst (add_term primaryTerm [])) (toLowerCase (element_text el)) \<Longrightarrow>
   \<exists>k. el = Mark primary k (element_text el)"
proof -
  assume t: "truthy primaryTerm"
    and el: "el \<in> set (highlightText text primaryTerm secondaryTerm)"
    and b: "belongs_to primaryTerm (fst (add_term primaryTerm [])) (toLowerCase (element_text el))"
  from t el have "el \<in> set (render_parts primaryTerm (word_set primaryTerm)
      secondaryTerm (word_set secondaryTerm) 0
      (split (match_alternatives (term_literals primaryTerm @ term_literals secondaryTerm))
         True text))"
    by (simp add: highlightText_cases)
  moreover from b have "belongs_to primaryTerm (word_set primaryTerm) (toLowerCase (element_text el))"
    by (simp add: fst_add_term)
  ultimately show ?thesis by (rule render_parts_primary)
qed

theorem primary_before_secondary_witness:
  "truthy (Some ''tax'') \<and>
   Mark primary 7 ''tax'' \<in> set (highlightText ''Income tax'' (Some ''tax'') (Some ''tax'')) \<and>
   belongs_to (Some ''tax'') (fst (add_term (Some ''tax'') [])) (toLowerCase ''tax'') \<and>
   (\<exists>k. Mark primary 7 ''tax'' = Mark primary k ''tax'')"
  using primary_before_secondary [of "Some ''tax''" "Mark primary 7 ''tax''" "''Income tax''" "Some ''tax''"]
  by (simp add: eval_tax eval_tax_belongs truthy_def)

subsection \<open>Position keys\<close>

lemma toLowerCase_Nil [simp]: "toLowerCase [] = []"
  by (simp add: toLowerCase_def)

lemma Nil_eq_toLowerCase_iff [simp]: "[] = toLowerCase s \<longleftrightarrow> s = []"
  by (simp add: toLowerCase_def)

lemma belongs_to_nonempty:
  "belongs_to t ws (toLowerCase part) \<Longrightarrow> [] \<notin> ws \<Longrightarrow> part \<noteq> []"
  by (auto simp: belongs_to_def split: option.splits)

lemma word_set_nonempty: "[] \<notin> word_set t"
proof -
  have "set (tl (term_literals t)) \<subseteq> set (term_literals t)"
    by (cases "term_literals t") auto
  with term_literals_nonempty [of t] show ?thesis
    by (auto simp: word_set_def)
qed

lemma mark_keys_Cons:
  "mark_keys (el # els) = (case positionKey el of None \<Rightarrow> [] | Some k \<Rightarrow> [k]) @ mark_keys els"
  by (simp add: mark_keys_def)

lemma mark_keys_render_parts_ge:
  "x \<in> set (mark_keys (render_parts t pw s sw k parts)) \<Longrightarrow> k \<le> x"
proof (induction parts arbitrary: k)
  case Nil
  then show ?case by (simp add: mark_keys_def)
next
  case (Cons part parts)
  from Cons.prems Cons.IH [of "k + length part"] show ?case
    by (auto simp: mark_keys_Cons split: if_splits)
qed

lemma mark_keys_render_parts_sorted:
  "[] \<notin> pw \<Longrightarrow> [] \<notin> sw \<Longrightarrow>
   sorted_wrt (<) (mark_keys (render_parts t pw s sw k parts))"
proof (induction parts arbitrary: k)
  case Nil
  then show ?case by (simp add: mark_keys_def)
next
  case (Cons part parts)
  have rest: "sorted_wrt (<) (mark_keys (render_parts t pw s sw (k + length part) parts))"
    using Cons by blast
  have ge: "\<forall>x\<in>set (mark_keys (render_parts t pw s sw (k + length part) parts)).
              k + length part \<le> x"
    using mark_keys_render_parts_ge by blast
  show ?case
  proof (cases "belongs_to t pw (toLowerCase part) \<or> belongs_to s sw (toLowerCase part)")
    case True
    with Cons.prems have "part \<noteq> []" using belongs_to_nonempty by blast
    then have "0 < length part" by simp
    have "\<forall>x\<in>set (mark_keys (render_parts t pw s sw (k + length part) parts)). k < x"
    proof
      fix x
      assume "x \<in> set (mark_keys (render_parts t pw s sw (k + length part) parts))"
      with ge have "k + length part \<le> x" by blast
      with \<open>0 < length part\<close> show "k < x" by linarith
    qed
    with rest True show ?thesis by (auto simp: mark_keys_Cons)
  next
    case False
    with rest show ?thesis by (simp add: mark_keys_Cons)
  qed
qed

lemma render_parts_mark_nonempty:
  "[] \<notin> pw \<Longrightarrow> [] \<notin> sw \<Longrightarrow> el \<in> set (render_parts t pw s sw k parts) \<Longrightarrow>
   positionKey el \<noteq> None \<Longrightarrow> element_text el \<noteq> []"
  by (induction parts arbitrary: k) (auto split: if_splits dest: belongs_to_nonempty)

lemma eval_scenario:
  "highlightText ''Income tax applies to gross income.'' (Some ''income tax'') (Some ''gross'') =
    [Span [], Mark primary 0 ''Income tax'', Span '' applies to '',
     Mark secondary 22 ''gross'', Span '' '', Mark primary 28 ''income'', Span ''.'']"
  by code_simp

text \<open>
  Claim C10. In every result of \<open>highlightText\<close> the offsets under which the marks are
  registered are strictly increasing in the order of the elements, hence pairwise
  distinct, and every mark has a non-empty text.
\<close>

theorem position_keys_increasing:
  "sorted_wrt (<) (mark_keys (highlightText text primaryTerm secondaryTerm)) \<and>
   distinct (mark_keys (highlightText text primaryTerm secondaryTerm)) \<and>
   (\<forall>el\<in>set (highlightText text primaryTerm secondaryTerm).
      positionKey el \<noteq> None \<longrightarrow> element_text el \<noteq> [])"
proof -
  have s: "sorted_wrt (<) (mark_keys (highlightText text primaryTerm secondaryTerm))"
  proof (cases "truthy primaryTerm \<or> truthy secondaryTerm")
    case True
    then show ?thesis
      by (simp only: highlightText_cases if_True)
         (rule mark_keys_render_parts_sorted [OF word_set_nonempty word_set_nonempty])
  next
    case False
    then show ?thesis by (simp add: highlightText_cases mark_keys_def)
  qed
  then have "distinct (mark_keys (highlightText text primaryTerm secondaryTerm))"
    by (simp add: strict_sorted_iff)
  moreover have "\<forall>el\<in>set (highlightText text primaryTerm secondaryTerm).
      positionKey el \<noteq> None \<longrightarrow> element_text el \<noteq> []"
    using render_parts_mark_nonempty [OF word_set_nonempty word_set_nonempty]
    by (auto simp: highlightText_cases)
  ultimately show ?thesis using s by blast
qed

theorem position_keys_increasing_witness:
  "mark_keys (highlightText ''Income tax applies to gross income.'' (Some ''income tax'') (Some ''gross''))
     = [0, 22, 28] \<and>
   sorted_wrt (<) (mark_keys (highlightText ''Income tax applies to gross income.''
     (Some ''income tax'') (Some ''gross''))) \<and>
   Mark secondary 22 ''gross'' \<in> set (highlightText ''Income tax applies to gross income.''
     (Some ''income tax'') (Some ''gross'')) \<and>
   positionKey (Mark secondary 22 ''gross'') \<noteq> None \<and>
   element_text (Mark secondary 22 ''gross'') \<noteq> []"
  using position_keys_increasing [of "''Income tax applies to gross income.''" "Some ''income tax''" "Some ''gross''"]
  by (simp add: eval_scenario mark_keys_def)

subsection \<open>The effect, with the loops resolved\<close>

lemma alternatives_proper:
  "[] \<notin> set alts \<Longrightarrow> match_alternatives alts S q = Some n \<Longrightarrow> 0 < n \<and> q + n \<le> length S"
  by (rule match_alternatives_proper)

lemma exec_loop_alternatives:
  assumes "[] \<notin> set alts"
  shows "exec_loop (match_alternatives alts) S fam i acc =
         Some (acc @ map (position_of S fam) (occurrences (match_alternatives alts) S i))"
proof (rule exec_loop_occurrences)
  fix q n
  assume "match_alternatives alts S q = Some n"
  with assms show "0 < n" using match_alternatives_proper by blast
qed

lemma occurrences_no_alternatives: "occurrences (match_alternatives []) S i = []"
proof (cases "regexp_search (match_alternatives []) S i")
  case None
  then show ?thesis by (simp add: occurrences.simps [of _ S i])
next
  case (Some jn)
  obtain j n where "jn = (j, n)" by (cases jn)
  with Some regexp_search_Some [of "match_alternatives []" S i j n] show ?thesis by simp
qed

lemma scan_family_occurrences:
  "scan_family (term_patterns t) fam text acc =
     Some (Inr (acc @ map (position_of text fam) (family_occurrences t text)))"
proof (cases "term_literals t = []")
  case True
  then show ?thesis
    by (simp add: scan_family_def term_patterns_literals family_occurrences_def
        occurrences_no_alternatives)
next
  case False
  from RegExp_new_source [OF False] exec_loop_alternatives [OF term_literals_nonempty] False
  show ?thesis
    by (simp add: scan_family_def term_patterns_literals family_occurrences_def)
qed

lemma matchPositions_effect_result:
  "documentText \<noteq> [] \<Longrightarrow>
   matchPositions_effect documentText t s prev =
     Some (Inr (sort_key mp_index
       (map (position_of documentText primary) (family_occurrences t documentText) @
        map (position_of documentText secondary) (family_occurrences s documentText))))"
  by (simp add: matchPositions_effect_def scan_family_occurrences)

lemma family_occurrences_in_text:
  "x \<in> set (family_occurrences t text) \<Longrightarrow> in_text text 0 x"
proof -
  have "\<forall>x\<in>set (occurrences (match_alternatives (term_literals t)) text 0). in_text text 0 x"
    by (rule occurrences_within) (rule match_alternatives_proper [OF term_literals_nonempty])
  then show "x \<in> set (family_occurrences t text) \<Longrightarrow> in_text text 0 x"
    by (simp add: family_occurrences_def)
qed

lemma position_of_simps [simp]:
  "mp_index (position_of S fam (j, n)) = j"
  "mp_term (position_of S fam (j, n)) = substring S j (j + n)"
  "mp_type (position_of S fam (j, n)) = fam"
  "mp_percentage (position_of S fam (j, n)) = js_multiply (js_divide j (length S)) (Num 100)"
  by (simp_all add: position_of_def)

lemma length_substring: "j + n \<le> length S \<Longrightarrow> length (substring S j (j + n)) = n"
  by (simp add: substring_def)

subsection \<open>Non-overlap within one scan\<close>

lemma positions_chain:
  assumes proper: "\<And>q n. m S q = Some n \<Longrightarrow> 0 < n \<and> q + n \<le> length S"
  shows "sorted_wrt (\<lambda>a b. mp_index a + length (mp_term a) \<le> mp_index b)
           (map (position_of S fam) (occurrences m S i)) \<and>
         sorted_wrt (\<lambda>a b. mp_index a < mp_index b)
           (map (position_of S fam) (occurrences m S i))"
proof -
  let ?os = "occurrences m S i"
  have chain: "sorted_wrt (\<lambda>a b. fst a + snd a \<le> fst b) ?os"
    by (rule occurrences_chain) (rule proper)
  have inside: "\<forall>x\<in>set ?os. in_text S i x"
    by (rule occurrences_within) (rule proper)
  have "sorted_wrt (\<lambda>a b. mp_index (position_of S fam a) + length (mp_term (position_of S fam a))
                          \<le> mp_index (position_of S fam b)) ?os"
    using chain
  proof (rule sorted_wrt_mono_rel [rotated])
    fix a b
    assume a: "a \<in> set ?os" and "b \<in> set ?os" and le: "fst a + snd a \<le> fst b"
    obtain j n where an: "a = (j, n)" by (cases a)
    obtain j' n' where bn: "b = (j', n')" by (cases b)
    from inside a an have "j + n \<le> length S" by (auto simp: in_text_def)
    with le an bn
    show "mp_index (position_of S fam a) + length (mp_term (position_of S fam a))
            \<le> mp_index (position_of S fam b)"
      by (simp add: length_substring)
  qed
  moreover have "sorted_wrt (\<lambda>a b. mp_index (position_of S fam a) < mp_index (position_of S fam b)) ?os"
    using chain
  proof (rule sorted_wrt_mono_rel [rotated])
    fix a b
    assume a: "a \<in> set ?os" and "b \<in> set ?os" and le: "fst a + snd a \<le> fst b"
    obtain j n where an: "a = (j, n)" by (cases a)
    obtain j' n' where bn: "b = (j', n')" by (cases b)
    from inside a an have "0 < n" by (auto simp: in_text_def)
    with le an bn
    show "mp_index (position_of S fam a) < mp_index (position_of S fam b)"
      by simp
  qed
  ultimately show ?thesis by (simp add: sorted_wrt_map)
qed

lemma eval_scan:
  "exec_loop (match_alternatives [''aa'', ''b'']) ''aaabaab'' primary 0 [] =
     Some [\<lparr>mp_index = 0, mp_term = ''aa'', mp_type = primary, mp_percentage = Num 0\<rparr>,
           \<lparr>mp_index = 3, mp_term = ''b'', mp_type = primary, mp_percentage = Num (6031606643799771 / 140737488355328)\<rparr>,
           \<lparr>mp_index = 4, mp_term = ''aa'', mp_type = primary, mp_percentage = Num (2010535547933257 / 35184372088832)\<rparr>,
           \<lparr>mp_index = 6, mp_term = ''b'', mp_type = primary, mp_percentage = Num (6031606643799771 / 70368744177664)\<rparr>]"
  by code_simp

text \<open>
  Claim C6. For an expression whose alternatives are non-empty literals, as every
  expression the effect builds is, and for any text, the loop over \<open>exec\<close> returns, and
  in the entries it pushes each match ends at or before the start of every later one,
  so that the offsets are strictly increasing. The second part states the same of a
  family's scan in the effect, from the building of the expression on.
\<close>

theorem scan_non_overlapping:
  "[] \<notin> set alts \<Longrightarrow>
   (\<exists>ps. exec_loop (match_alternatives alts) text fam 0 [] = Some ps \<and>
      sorted_wrt (\<lambda>a b. mp_index a + length (mp_term a) \<le> mp_index b) ps \<and>
      sorted_wrt (\<lambda>a b. mp_index a < mp_index b) ps) \<and>
   (\<exists>ps. scan_family (term_patterns t) fam text [] = Some (Inr ps) \<and>
      sorted_wrt (\<lambda>a b. mp_index a + length (mp_term a) \<le> mp_index b) ps \<and>
      sorted_wrt (\<lambda>a b. mp_index a < mp_index b) ps)"
proof
  assume alts: "[] \<notin> set alts"
  note proper = match_alternatives_proper [OF alts]
  from positions_chain [of "match_alternatives alts" "text" fam 0, OF proper]
  show "\<exists>ps. exec_loop (match_alternatives alts) text fam 0 [] = Some ps \<and>
      sorted_wrt (\<lambda>a b. mp_index a + length (mp_term a) \<le> mp_index b) ps \<and>
      sorted_wrt (\<lambda>a b. mp_index a < mp_index b) ps"
    by (simp add: exec_loop_alternatives [OF alts])
  note proper' = match_alternatives_proper [OF term_literals_nonempty]
  from positions_chain [of "match_alternatives (term_literals t)" "text" fam 0, OF proper']
  show "\<exists>ps. scan_family (term_patterns t) fam text [] = Some (Inr ps) \<and>
      sorted_wrt (\<lambda>a b. mp_index a + length (mp_term a) \<le> mp_index b) ps \<and>
      sorted_wrt (\<lambda>a b. mp_index a < mp_index b) ps"
    by (simp add: scan_family_occurrences family_occurrences_def)
qed

theorem scan_non_overlapping_witness:
  "[] \<notin> set [''aa'', ''b''] \<and>
   exec_loop (match_alternatives [''aa'', ''b'']) ''aaabaab'' primary 0 [] =
     Some [\<lparr>mp_index = 0, mp_term = ''aa'', mp_type = primary, mp_percentage = Num 0\<rparr>,
           \<lparr>mp_index = 3, mp_term = ''b'', mp_type = primary, mp_percentage = Num (6031606643799771 / 140737488355328)\<rparr>,
           \<lparr>mp_index = 4, mp_term = ''aa'', mp_type = primary, mp_percentage = Num (2010535547933257 / 35184372088832)\<rparr>,
           \<lparr>mp_index = 6, mp_term = ''b'', mp_type = primary, mp_percentage = Num (6031606643799771 / 70368744177664)\<rparr>] \<and>
   sorted_wrt (\<lambda>a b. mp_index a + length (mp_term a) \<le> mp_index b)
     [\<lparr>mp_index = 0, mp_term = ''aa'', mp_type = primary, mp_percentage = Num 0\<rparr>,
      \<lparr>mp_index = 3, mp_term = ''b'', mp_type = primary, mp_percentage = Num (6031606643799771 / 140737488355328)\<rparr>,
      \<lparr>mp_index = 4, mp_term = ''aa'', mp_type = primary, mp_percentage = Num (2010535547933257 / 35184372088832)\<rparr>,
      \<lparr>mp_index = 6, mp_term = ''b'', mp_type = primary, mp_percentage = Num (6031606643799771 / 70368744177664)\<rparr>]"
  using scan_non_overlapping [of "[''aa'', ''b'']" "''aaabaab''" primary None]
  by (simp add: eval_scan)

subsection \<open>Rounding to doubles\<close>

lemma round_half_even_le: "x \<le> of_int K \<Longrightarrow> round_half_even x \<le> K"
proof -
  assume x: "x \<le> of_int K"
  then have f: "\<lfloor>x\<rfloor> \<le> K" by (simp add: floor_le_iff) 
  show ?thesis
  proof (cases "\<lfloor>x\<rfloor> = K")
    case True
    with x have "x - of_int \<lfloor>x\<rfloor> \<le> 0" by simp
    then show ?thesis using True by (simp add: round_half_even_def Let_def)
  next
    case False
    with f have "\<lfloor>x\<rfloor> + 1 \<le> K" by simp
    then show ?thesis using f by (simp add: round_half_even_def Let_def)
  qed
qed

lemma round_half_even_below: "x < of_int N - 1 / 2 \<Longrightarrow> round_half_even x \<le> N - 1"
proof -
  assume x: "x < of_int N - 1 / 2"
  then have "x < of_int N" by simp
  then have f: "\<lfloor>x\<rfloor> \<le> N - 1" by (simp add: floor_less_iff)
  show ?thesis
  proof (cases "\<lfloor>x\<rfloor> = N - 1")
    case True
    with x have "x - of_int \<lfloor>x\<rfloor> < 1 / 2" by simp
    then show ?thesis using True by (simp add: round_half_even_def Let_def)
  next
    case False
    with f have "\<lfloor>x\<rfloor> + 1 \<le> N - 1" by simp
    then show ?thesis using f by (simp add: round_half_even_def Let_def)
  qed
qed

lemma round_half_even_nonneg: "0 \<le> x \<Longrightarrow> 0 \<le> round_half_even x"
proof -
  assume "0 \<le> x"
  then have "0 \<le> \<lfloor>x\<rfloor>" by simp
  then show ?thesis by (simp add: round_half_even_def Let_def)
qed

lemma binade_down_power:
  "binade_down k p x = (p', b) \<Longrightarrow> p = 1 / 2 ^ Suc n \<Longrightarrow> x < 2 * p \<Longrightarrow>
   \<exists>n'. p' = 1 / 2 ^ Suc n' \<and> x < 2 * p' \<and> \<not> b"
proof (induction k arbitrary: p n)
  case 0
  then show ?case by auto
next
  case (Suc k)
  show ?case
  proof (cases "p \<le> x")
    case True
    with Suc.prems show ?thesis by auto
  next
    case False
    with Suc.prems(1) have "binade_down k (p / 2) x = (p', b)" by simp
    moreover from Suc.prems(2) have "p / 2 = 1 / 2 ^ Suc (Suc n)" by simp
    moreover from False have "x < 2 * (p / 2)" by simp
    ultimately show ?thesis by (rule Suc.IH)
  qed
qed

lemma binade_up_power:
  "binade_up k p x = (p', b) \<Longrightarrow> p = 2 ^ n \<Longrightarrow> p \<le> x \<Longrightarrow>
   \<exists>n'. p' = 2 ^ n' \<and> n' \<le> n + k \<and> p' \<le> x \<and> (if b then n' = n + k else x < 2 * p')"
proof (induction k arbitrary: p n)
  case 0
  then show ?case by auto
next
  case (Suc k)
  show ?case
  proof (cases "x < 2 * p")
    case True
    with Suc.prems show ?thesis by auto
  next
    case False
    with Suc.prems(1) have "binade_up k (2 * p) x = (p', b)" by simp
    moreover from Suc.prems(2) have "2 * p = 2 ^ Suc n" by simp
    moreover from False have "2 * p \<le> x" by simp
    ultimately have "\<exists>n'. p' = 2 ^ n' \<and> n' \<le> Suc n + k \<and> p' \<le> x \<and>
        (if b then n' = Suc n + k else x < 2 * p')"
      by (rule Suc.IH)
    then obtain n' where "p' = 2 ^ n'" "n' \<le> Suc n + k" "p' \<le> x"
      "if b then n' = Suc n + k else x < 2 * p'" by blast
    then show ?thesis by (intro exI [of _ n']) (auto split: if_splits)
  qed
qed

lemma scaled_round_le:
  assumes "0 < p" and "x * 4503599627370496 / p \<le> of_int K"
  shows "real_of_int (round_half_even (x * 4503599627370496 / p)) * p / 4503599627370496
         \<le> of_int K * p / 4503599627370496"
proof -
  from assms(2) have "round_half_even (x * 4503599627370496 / p) \<le> K"
    by (rule round_half_even_le)
  then have "real_of_int (round_half_even (x * 4503599627370496 / p)) \<le> real_of_int K"
    by (simp only: of_int_le_iff)
  then have "real_of_int (round_half_even (x * 4503599627370496 / p)) * p \<le> real_of_int K * p"
    using assms(1) by (simp only: mult_le_cancel_right) simp
  then show ?thesis by (simp only: divide_right_mono zero_le_numeral)
qed

lemma scaled_round_nonneg:
  assumes "0 < p" and "0 \<le> x"
  shows "0 \<le> real_of_int (round_half_even (x * 4503599627370496 / p)) * p / 4503599627370496"
proof -
  have "0 \<le> x * 4503599627370496 / p" using assms by simp
  then have "0 \<le> round_half_even (x * 4503599627370496 / p)" by (rule round_half_even_nonneg)
  then show ?thesis using assms(1) by simp
qed

lemma scaled_le_twice:
  assumes "0 < (p::real)" and "(x::real) < 2 * p"
  shows "x * 4503599627370496 / p \<le> of_int 9007199254740992"
proof -
  from assms have "x / p < 2" by (simp add: pos_divide_less_eq)
  then have "4503599627370496 * (x / p) \<le> 4503599627370496 * 2" by simp
  then show ?thesis by (simp add: mult.commute)
qed

lemma to_double_below_one:
  assumes "0 < x" and "x \<le> below_one"
  shows "\<exists>r. to_double x = Num r \<and> 0 \<le> r \<and> r \<le> below_one"
proof -
  from assms have x1: "x < 1" by (simp add: below_one_def)
  obtain p b where pb: "binade x = (p, b)" by (cases "binade x")
  with x1 have "binade_down 1021 (1 / 2) x = (p, b)" by (simp add: binade_def)
  from binade_down_power [OF this, of 0] x1
  obtain n where p: "p = 1 / 2 ^ Suc n" and b: "\<not> b" by auto
  have ppos: "0 < p" by (simp add: p)
  let ?r = "real_of_int (round_half_even (x * 4503599627370496 / p)) * p / 4503599627370496"
  have scale: "x * 4503599627370496 / p = x * 2 ^ (53 + n)"
    by (simp add: p power_add)
  have "x * 2 ^ (53 + n) \<le> below_one * 2 ^ (53 + n)"
    using assms(2) by simp
  also have "below_one * 2 ^ (53 + n) = of_int ((2 ^ 53 - 1) * 2 ^ n)"
    by (simp add: below_one_def power_add field_simps)
  finally have "x * 4503599627370496 / p \<le> of_int ((2 ^ 53 - 1) * 2 ^ n)"
    by (simp only: scale)
  from scaled_round_le [OF ppos this]
  have "?r \<le> of_int ((2 ^ 53 - 1) * 2 ^ n) * p / 4503599627370496" .
  also have "of_int ((2 ^ 53 - 1) * 2 ^ n) * p / 4503599627370496 = below_one"
    by (simp add: p below_one_def field_simps)
  finally have upper: "?r \<le> below_one" .
  have lower: "0 \<le> ?r" using ppos assms(1) by (intro scaled_round_nonneg) simp_all
  have "to_double x = Num ?r"
    using assms(1) pb b by (simp add: to_double_def Let_def)
  with upper lower show ?thesis by blast
qed

lemma to_double_below_hundred:
  assumes "0 < y" and "y \<le> below_one * 100"
  shows "\<exists>r. to_double y = Num r \<and> 0 \<le> r \<and> r < 100"
proof (cases "y < 1")
  case True
  obtain p b where pb: "binade y = (p, b)" by (cases "binade y")
  with True have "binade_down 1021 (1 / 2) y = (p, b)" by (simp add: binade_def)
  from binade_down_power [OF this, of 0] True
  obtain n where p: "p = 1 / 2 ^ Suc n" and y2: "y < 2 * p" and b: "\<not> b" by auto
  have ppos: "0 < p" by (simp add: p)
  let ?r = "real_of_int (round_half_even (y * 4503599627370496 / p)) * p / 4503599627370496"
  from scaled_round_le [OF ppos scaled_le_twice [OF ppos y2]]
  have "?r \<le> of_int 9007199254740992 * p / 4503599627370496" .
  also have "\<dots> = 2 * p" by simp
  also have "\<dots> \<le> 1" by (simp add: p field_simps)
  finally have upper: "?r < 100" by simp
  have lower: "0 \<le> ?r" using ppos assms(1) by (intro scaled_round_nonneg) simp_all
  have "to_double y = Num ?r"
    using assms(1) pb b by (simp add: to_double_def Let_def)
  with upper lower show ?thesis by blast
next
  case False
  then have y1: "1 \<le> y" by simp
  from assms(2) have y128: "y < 128" by (simp add: below_one_def)
  obtain p b where pb: "binade y = (p, b)" by (cases "binade y")
  with y1 have "binade_up 1023 1 y = (p, b)" by (simp add: binade_def)
  from binade_up_power [OF this, of 0] y1
  obtain n where p: "p = 2 ^ n" and n: "n \<le> 1023" and py: "p \<le> y"
    and bb: "if b then n = 1023 else y < 2 * p" by auto
  have n7: "n < 7"
  proof (rule ccontr)
    assume "\<not> n < 7"
    then have "(2::real) ^ 7 \<le> 2 ^ n" by (intro power_increasing) simp_all
    with py y128 p show False by simp
  qed
  with bb have b: "\<not> b" and y2: "y < 2 * p" by (auto split: if_splits)
  have ppos: "0 < p" using p by simp
  let ?r = "real_of_int (round_half_even (y * 4503599627370496 / p)) * p / 4503599627370496"
  have lower: "0 \<le> ?r" using ppos assms(1) by (intro scaled_round_nonneg) simp_all
  have upper: "?r < 100"
  proof (cases "n = 6")
    case True
    then have p64: "p = 64" using p by simp
    have "y * 4503599627370496 / p \<le> below_one * 100 * 4503599627370496 / 64"
      using assms(2) p64 by simp
    also have "\<dots> < of_int 7036874417766400 - 1 / 2"
      by (simp add: below_one_def)
    finally have "round_half_even (y * 4503599627370496 / p) \<le> 7036874417766400 - 1"
      by (rule round_half_even_below)
    then have "real_of_int (round_half_even (y * 4503599627370496 / p)) \<le> 7036874417766399"
      by linarith
    then show ?thesis using p64 by simp
  next
    case False
    with n7 have "n \<le> 5" by simp
    then have "(2::real) ^ n \<le> 2 ^ 5" by (intro power_increasing) simp_all
    then have p32: "p \<le> 32" using p by simp
    from scaled_round_le [OF ppos scaled_le_twice [OF ppos y2]]
    have "?r \<le> of_int 9007199254740992 * p / 4503599627370496" .
    also have "\<dots> = 2 * p" by simp
    finally show ?thesis using p32 by simp
  qed
  have "to_double y = Num ?r"
    using assms(1) pb b by (simp add: to_double_def Let_def)
  with upper lower show ?thesis by blast
qed

lemma quotient_below_one:
  assumes "i < L" and "L \<le> 2 ^ 53"
  shows "real i / real L \<le> below_one"
proof -
  from assms(1) have L: "0 < real L" by simp
  from assms(1) have "real i \<le> real L - 1" by linarith
  then have "real i / real L \<le> (real L - 1) / real L"
    using L by (simp add: divide_right_mono)
  also have "\<dots> = 1 - 1 / real L" using L by (simp add: field_simps)
  also have "\<dots> \<le> 1 - 1 / 2 ^ 53"
  proof -
    from assms(2) have "real L \<le> 2 ^ 53" by (metis of_nat_le_iff of_nat_numeral of_nat_power)
    with L have "1 / 2 ^ 53 \<le> 1 / real L" by (simp add: frac_le)
    then show ?thesis by simp
  qed
  finally show ?thesis by (simp add: below_one_def)
qed

lemma percentage_double:
  assumes "i < L" and "L \<le> 2 ^ 53"
  shows "\<exists>r. js_multiply (js_divide i L) (Num 100) = Num r \<and> 0 \<le> r \<and> r < 100"
proof (cases "i = 0")
  case True
  with assms(1) show ?thesis by (simp add: js_divide_def to_double_def)
next
  case False
  with assms(1) have q: "0 < real i / real L" by simp
  from to_double_below_one [OF q quotient_below_one [OF assms]]
  obtain r1 where r1: "to_double (real i / real L) = Num r1" "0 \<le> r1" "r1 \<le> below_one"
    by blast
  from assms(1) r1(1) have d: "js_divide i L = Num r1" by (simp add: js_divide_def)
  show ?thesis
  proof (cases "r1 = 0")
    case True
    with d show ?thesis by (simp add: to_double_def)
  next
    case False
    with r1(2) have "0 < r1 * 100" by simp
    moreover from r1(3) have "r1 * 100 \<le> below_one * 100" by simp
    ultimately show ?thesis using d to_double_below_hundred by simp
  qed
qed

subsection \<open>Percentages\<close>

lemma position_in_effect:
  assumes "mp \<in> set (map (position_of text fam) (family_occurrences t text))"
  shows "mp_index mp < length text \<and>
         mp_percentage mp = js_multiply (js_divide (mp_index mp) (length text)) (Num 100)"
proof -
  from assms obtain x where x: "x \<in> set (family_occurrences t text)"
    and mp: "mp = position_of text fam x" by auto
  obtain j n where jn: "x = (j, n)" by (cases x)
  from family_occurrences_in_text [OF x] jn have "j < length text"
    by (simp add: in_text_def)
  with mp jn show ?thesis by simp
qed

lemma eval_effect_scenario:
  "matchPositions_effect ''Income tax applies to gross income. Done'' (Some ''income tax'') (Some ''gross'') [] =
     Some (Inr [\<lparr>mp_index = 0, mp_term = ''Income tax'', mp_type = primary, mp_percentage = Num 0\<rparr>,
                \<lparr>mp_index = 22, mp_term = ''gross'', mp_type = secondary,
                   mp_percentage = Num (7740561859543041 / 140737488355328)\<rparr>,
                \<lparr>mp_index = 28, mp_term = ''income'', mp_type = primary, mp_percentage = Num 70\<rparr>])"
  by code_simp

text \<open>
  Claim C9. For a non-empty text (of a length below \<open>2^53\<close>, as every JavaScript string
  has) the effect returns, and every entry of the index it sets has an offset below the
  length of the text and the percentage \<open>(offset / length) * 100\<close>, computed in doubles
  with a rounding after the division and one after the multiplication; this double is
  a finite number, at least 0 and below 100.
\<close>

theorem percentage_in_range:
  "documentText \<noteq> [] \<Longrightarrow> length documentText < 2 ^ 53 \<Longrightarrow>
   \<exists>ps. matchPositions_effect documentText highlightTerm secondaryHighlightTerm matchPositions
          = Some (Inr ps) \<and>
        (\<forall>mp\<in>set ps.
           mp_index mp < length documentText \<and>
           mp_percentage mp =
             js_multiply (js_divide (mp_index mp) (length documentText)) (Num 100) \<and>
           (\<exists>p. mp_percentage mp = Num p \<and> 0 \<le> p \<and> p < 100))"
proof -
  assume nonempty: "documentText \<noteq> []" and bound: "length documentText < 2 ^ 53"
  let ?ps = "sort_key mp_index
       (map (position_of documentText primary) (family_occurrences highlightTerm documentText) @
        map (position_of documentText secondary)
          (family_occurrences secondaryHighlightTerm documentText))"
  have "\<forall>mp\<in>set ?ps.
           mp_index mp < length documentText \<and>
           mp_percentage mp =
             js_multiply (js_divide (mp_index mp) (length documentText)) (Num 100) \<and>
           (\<exists>p. mp_percentage mp = Num p \<and> 0 \<le> p \<and> p < 100)"
  proof
    fix mp
    assume "mp \<in> set ?ps"
    then have "mp \<in> set (map (position_of documentText primary)
                     (family_occurrences highlightTerm documentText)) \<or>
               mp \<in> set (map (position_of documentText secondary)
                     (family_occurrences secondaryHighlightTerm documentText))"
      by auto
    then have p: "mp_index mp < length documentText \<and>
         mp_percentage mp =
           js_multiply (js_divide (mp_index mp) (length documentText)) (Num 100)"
      using position_in_effect by blast
    moreover from bound have "length documentText \<le> 2 ^ 53" by simp
    ultimately have "\<exists>r. js_multiply (js_divide (mp_index mp) (length documentText)) (Num 100)
                       = Num r \<and> 0 \<le> r \<and> r < 100"
      using percentage_double by blast
    with p show "mp_index mp < length documentText \<and>
           mp_percentage mp =
             js_multiply (js_divide (mp_index mp) (length documentText)) (Num 100) \<and>
           (\<exists>p. mp_percentage mp = Num p \<and> 0 \<le> p \<and> p < 100)"
      by simp
  qed
  with matchPositions_effect_result [OF nonempty] show ?thesis by blast
qed

theorem percentage_in_range_witness:
  "''Income tax applies to gross income. Done'' \<noteq> [] \<and>
   length ''Income tax applies to gross income. Done'' < 2 ^ 53 \<and>
   matchPositions_effect ''Income tax applies to gross income. Done'' (Some ''income tax'') (Some ''gross'') [] =
     Some (Inr [\<lparr>mp_index = 0, mp_term = ''Income tax'', mp_type = primary, mp_percentage = Num 0\<rparr>,
                \<lparr>mp_index = 22, mp_term = ''gross'', mp_type = secondary,
                   mp_percentage = Num (7740561859543041 / 140737488355328)\<rparr>,
                \<lparr>mp_index = 28, mp_term = ''income'', mp_type = primary, mp_percentage = Num 70\<rparr>]) \<and>
   (22::nat) < length ''Income tax applies to gross income. Done'' \<and>
   (0::real) \<le> 7740561859543041 / 140737488355328 \<and>
   (7740561859543041 / 140737488355328 :: real) < 100"
  using percentage_in_range [of "''Income tax applies to gross income. Done''"
      "Some ''income tax''" "Some ''gross''" "[]"]
  by (simp add: eval_effect_scenario)

subsection \<open>Order of the index\<close>

lemma index_order_le: "index_order a b \<Longrightarrow> mp_index a \<le> mp_index b"
  by (auto simp: index_order_def)

lemma insort_index_order:
  "sorted_wrt index_order ys \<Longrightarrow>
   mp_type x = primary \<or> (\<forall>y\<in>set ys. mp_type y = secondary) \<Longrightarrow>
   sorted_wrt index_order (insort_key mp_index x ys)"
proof (induction ys)
  case Nil
  then show ?case by simp
next
  case (Cons y ys)
  show ?case
  proof (cases "mp_index x \<le> mp_index y")
    case True
    have "\<forall>z\<in>set (y # ys). index_order x z"
    proof
      fix z
      assume z: "z \<in> set (y # ys)"
      with Cons.prems(1) have "mp_index y \<le> mp_index z"
        by (auto dest: index_order_le)
      with True have "mp_index x \<le> mp_index z" by simp
      moreover from Cons.prems(2) z have "mp_type x = primary \<or> mp_type z = secondary" by blast
      ultimately show "index_order x z" by (auto simp: index_order_def)
    qed
    with True Cons.prems(1) show ?thesis by simp
  next
    case False
    then have "index_order y x" by (simp add: index_order_def)
    moreover from Cons have "sorted_wrt index_order (insort_key mp_index x ys)" by auto
    ultimately show ?thesis using False Cons.prems(1) by (auto simp: set_insort_key)
  qed
qed

lemma sort_key_secondary:
  "\<forall>y\<in>set ys. mp_type y = secondary \<Longrightarrow> sorted_wrt index_order (sort_key mp_index ys)"
proof (induction ys)
  case Nil
  then show ?case by simp
next
  case (Cons y ys)
  then show ?case by (simp add: insort_index_order)
qed

lemma sort_key_primary_append:
  "\<forall>x\<in>set xs. mp_type x = primary \<Longrightarrow> sorted_wrt index_order (sort_key mp_index ys) \<Longrightarrow>
   sorted_wrt index_order (sort_key mp_index (xs @ ys))"
proof (induction xs)
  case Nil
  then show ?case by simp
next
  case (Cons x xs)
  then show ?case by (simp add: insort_index_order)
qed

lemma sorted_index_order: "sorted_wrt index_order ps \<Longrightarrow> sorted (map mp_index ps)"
proof -
  assume "sorted_wrt index_order ps"
  then have "sorted_wrt (\<lambda>a b. mp_index a \<le> mp_index b) ps"
    by (rule sorted_wrt_mono_rel [rotated]) (rule index_order_le)
  then show ?thesis by (simp add: sorted_map)
qed

lemma eval_effect_tie:
  "matchPositions_effect ''xabcabxxxx'' (Some ''ab'') (Some ''abc'') [] =
     Some (Inr [\<lparr>mp_index = 1, mp_term = ''ab'', mp_type = primary, mp_percentage = Num 10\<rparr>,
                \<lparr>mp_index = 1, mp_term = ''abc'', mp_type = secondary, mp_percentage = Num 10\<rparr>,
                \<lparr>mp_index = 4, mp_term = ''ab'', mp_type = primary, mp_percentage = Num 40\<rparr>])"
  by code_simp

text \<open>
  Claim C8. The index that the effect leaves in \<open>matchPositions\<close> is sorted by offset,
  and where two entries have the same offset a primary entry never comes after a
  secondary one (\<open>index_order\<close>). This holds of the initial state, the empty list, and
  each run of the effect keeps it, for every text and pair of terms.
\<close>

theorem index_sorted_primary_first:
  "sorted_wrt index_order matchPositions \<Longrightarrow>
   \<exists>ps. matchPositions_effect documentText highlightTerm secondaryHighlightTerm matchPositions
          = Some (Inr ps) \<and>
        sorted (map mp_index ps) \<and> sorted_wrt index_order ps"
proof (cases "documentText = []")
  case True
  assume "sorted_wrt index_order matchPositions"
  with True show ?thesis
    by (simp add: matchPositions_effect_def sorted_index_order)
next
  case False
  let ?A = "map (position_of documentText primary) (family_occurrences highlightTerm documentText)"
  let ?B = "map (position_of documentText secondary)
              (family_occurrences secondaryHighlightTerm documentText)"
  have "\<forall>y\<in>set ?B. mp_type y = secondary" by auto
  then have "sorted_wrt index_order (sort_key mp_index ?B)" by (rule sort_key_secondary)
  moreover have "\<forall>x\<in>set ?A. mp_type x = primary" by auto
  ultimately have "sorted_wrt index_order (sort_key mp_index (?A @ ?B))"
    by (rule sort_key_primary_append [rotated])
  with matchPositions_effect_result [OF False] show ?thesis
    by (simp add: sorted_index_order)
qed

theorem index_sorted_primary_first_witness:
  "sorted_wrt index_order [] \<and>
   matchPositions_effect ''xabcabxxxx'' (Some ''ab'') (Some ''abc'') [] =
     Some (Inr [\<lparr>mp_index = 1, mp_term = ''ab'', mp_type = primary, mp_percentage = Num 10\<rparr>,
                \<lparr>mp_index = 1, mp_term = ''abc'', mp_type = secondary, mp_percentage = Num 10\<rparr>,
                \<lparr>mp_index = 4, mp_term = ''ab'', mp_type = primary, mp_percentage = Num 40\<rparr>]) \<and>
   sorted_wrt index_order
     [\<lparr>mp_index = 1, mp_term = ''ab'', mp_type = primary, mp_percentage = Num 10\<rparr>,
      \<lparr>mp_index = 1, mp_term = ''abc'', mp_type = secondary, mp_percentage = Num 10\<rparr>,
      \<lparr>mp_index = 4, mp_term = ''ab'', mp_type = primary, mp_percentage = Num 40\<rparr>]"
  using index_sorted_primary_first [of "[]" "''xabcabxxxx''" "Some ''ab''" "Some ''abc''"]
  by (simp add: eval_effect_tie)

subsection \<open>Empty text\<close>

lemma matchPositions_effect_recomputed:
  "documentText \<noteq> [] \<Longrightarrow>
   matchPositions_effect documentText t s prev = matchPositions_effect documentText t s []"
  by (simp add: matchPositions_effect_result)

text \<open>
  Claim C3. For a non-empty text the effect computes the index from the text and the
  terms alone (\<open>matchPositions_effect_recomputed\<close>). For the empty text it returns before
  \<open>setMatchPositions\<close> is called: the index computed for the text \<open>tax\<close> is still in
  place after the text has changed to the empty one.
\<close>

theorem matchPositions_effect_stale:
  "matchPositions_effect ''tax'' (Some ''tax'') None [] =
     Some (Inr [\<lparr>mp_index = 0, mp_term = ''tax'', mp_type = primary, mp_percentage = Num 0\<rparr>]) \<and>
   matchPositions_effect [] (Some ''tax'') None
       [\<lparr>mp_index = 0, mp_term = ''tax'', mp_type = primary, mp_percentage = Num 0\<rparr>] =
     Some (Inr [\<lparr>mp_index = 0, mp_term = ''tax'', mp_type = primary, mp_percentage = Num 0\<rparr>])"
proof
  show "matchPositions_effect ''tax'' (Some ''tax'') None [] =
     Some (Inr [\<lparr>mp_index = 0, mp_term = ''tax'', mp_type = primary, mp_percentage = Num 0\<rparr>])"
    by code_simp
  show "matchPositions_effect [] (Some ''tax'') None
       [\<lparr>mp_index = 0, mp_term = ''tax'', mp_type = primary, mp_percentage = Num 0\<rparr>] =
     Some (Inr [\<lparr>mp_index = 0, mp_term = ''tax'', mp_type = primary, mp_percentage = Num 0\<rparr>])"
    by (simp add: matchPositions_effect_def)
qed

subsection \<open>Splitting at the matches of the scan\<close>

lemma occurrences_none:
  assumes proper: "\<And>q n. m S q = Some n \<Longrightarrow> 0 < n \<and> q + n \<le> length S"
    and "length S \<le> q"
  shows "occurrences m S q = []"
proof -
  have "regexp_search m S q = None"
  proof (cases "length S < q")
    case True
    then show ?thesis by (rule regexp_search_end)
  next
    case False
    with assms(2) have q: "q = length S" by simp
    have "m S q = None"
    proof (rule ccontr)
      assume "m S q \<noteq> None"
      then obtain n where "m S q = Some n" by auto
      from proper [OF this] q show False by auto
    qed
    then have "regexp_search m S q = regexp_search m S (Suc q)" by (rule regexp_search_skip)
    with q show ?thesis by (simp add: regexp_search_end)
  qed
  then show ?thesis by (simp add: occurrences.simps [of m S q])
qed

lemma split_loop_pieces:
  "(\<And>q n. m S q = Some n \<Longrightarrow> 0 < n \<and> q + n \<le> length S) \<Longrightarrow> c \<Longrightarrow> p \<le> q \<Longrightarrow>
   split_loop m c S p q = pieces S p (occurrences m S q)"
proof (induction m c S p q rule: split_loop.induct)
  case (1 m c S p q)
  note proper = "1.prems"(1) and c = "1.prems"(2) and pq = "1.prems"(3)
  have pos: "\<And>q n. m S q = Some n \<Longrightarrow> 0 < n" using proper by blast
  show ?case
  proof (cases "q < length S")
    case False
    then have "occurrences m S q = []" using occurrences_none [OF proper] by simp
    with False show ?thesis by (simp add: split_loop.simps [of m c S p q])
  next
    case True
    show ?thesis
    proof (cases "m S q")
      case None
      have "split_loop m c S p q = split_loop m c S p (q + 1)"
        using True None by (simp add: split_loop.simps [of m c S p q])
      also have "\<dots> = pieces S p (occurrences m S (q + 1))"
        using "1.IH"(1) [OF True None proper c] pq by simp
      also have "occurrences m S (q + 1) = occurrences m S q"
        using regexp_search_skip [of m S q] None
        by (simp add: occurrences_unfold [of m S q, OF pos] occurrences_unfold [of m S "Suc q", OF pos])
      finally show ?thesis .
    next
      case (Some n)
      from proper [OF Some] have n: "0 < n" "q + n \<le> length S" by simp_all
      then have e: "min (q + n) (length S) = q + n" by simp
      with n pq have ne: "min (q + n) (length S) \<noteq> p" by simp
      have "split_loop m c S p q =
            substring S p q # substring S q (q + n) # split_loop m c S (q + n) (q + n)"
        using True Some ne c e by (subst split_loop.simps) simp
      also have "split_loop m c S (q + n) (q + n) = pieces S (q + n) (occurrences m S (q + n))"
        using "1.IH"(3) [OF True Some ne proper c] e by simp
      also have "substring S p q # substring S q (q + n) #
                   pieces S (q + n) (occurrences m S (q + n)) =
                 pieces S p (occurrences m S q)"
        using regexp_search_hit [of q S m n] True Some
        by (simp add: occurrences_unfold [of m S q, OF pos])
      finally show ?thesis .
    qed
  qed
qed

lemma split_pieces:
  assumes proper: "\<And>q n. m S q = Some n \<Longrightarrow> 0 < n \<and> q + n \<le> length S"
  shows "split m True S = pieces S 0 (occurrences m S 0)"
proof (cases "S = []")
  case True
  have "m S 0 = None"
  proof (rule ccontr)
    assume "m S 0 \<noteq> None"
    then obtain n where "m S 0 = Some n" by auto
    from proper [OF this] True show False by auto
  qed
  moreover have "occurrences m S 0 = []"
    using occurrences_none [of m S 0, OF proper] True by simp
  ultimately show ?thesis using True by (simp add: split_def substring_def)
next
  case False
  with split_loop_pieces [of m S True 0 0, OF proper] show ?thesis
    by (simp add: split_def)
qed

lemma occurrences_matches:
  "(\<And>q n. m S q = Some n \<Longrightarrow> 0 < n) \<Longrightarrow>
   \<forall>x\<in>set (occurrences m S i). m S (fst x) = Some (snd x)"
proof (induction m S i rule: occurrences.induct)
  case (1 m S i)
  note pos = "1.prems"
  show ?case
  proof (cases "regexp_search m S i")
    case None
    then show ?thesis by (simp add: occurrences.simps [of m S i])
  next
    case (Some jn)
    obtain j n where jn: "jn = (j, n)" by (cases jn)
    from regexp_search_Some [of m S i j n] Some jn
    have b: "i \<le> j" "j \<le> length S" "m S j = Some n" by simp_all
    with pos have n: "0 < n" by blast
    have guard: "\<not> (n = 0 \<or> j < i \<or> length S < j)" using b n by simp
    have "\<forall>x\<in>set (occurrences m S (j + n)). m S (fst x) = Some (snd x)"
      using "1.IH" [OF Some [unfolded jn] refl guard pos] by simp
    then show ?thesis
      using Some jn b by (simp add: occurrences_unfold [of m S i, OF pos])
  qed
qed

subsection \<open>Every match of the combined expression is rendered as a mark\<close>

lemma literal_belongs:
  assumes "a \<in> set (term_literals t)" and "toLowerCase part = toLowerCase a"
  shows "belongs_to t (word_set t) (toLowerCase part)"
proof (cases t)
  case None
  with assms(1) show ?thesis by (simp add: term_literals_def)
next
  case (Some s)
  with assms(1) have s: "s \<noteq> []" and "a = s \<or> a \<in> set (term_words s)"
    by (auto simp: term_literals_def split: if_splits)
  then have "toLowerCase a = toLowerCase s \<or> toLowerCase a \<in> word_set t"
    using Some by (auto simp: word_set_def term_literals_def)
  with s Some assms(2) show ?thesis by (simp add: belongs_to_def)
qed

lemma family_occurrences_inactive: "\<not> truthy t \<Longrightarrow> family_occurrences t S = []"
  by (simp add: family_occurrences_def term_literals_Nil_iff [symmetric]
      occurrences_no_alternatives)

lemma agree_sym: "agree as bs \<Longrightarrow> agree bs as"
  by (auto simp: agree_def)

lemma agree_subset:
  "agree as bs \<Longrightarrow> set as' \<subseteq> set as \<Longrightarrow> set bs' \<subseteq> set bs \<Longrightarrow> agree as' bs'"
  unfolding agree_def by blast

lemma match_alternatives_append:
  "match_alternatives (xs @ ys) S q =
     (case match_alternatives xs S q of Some n \<Rightarrow> Some n | None \<Rightarrow> match_alternatives ys S q)"
  by (induction xs) auto

lemma regexp_search_range:
  "(\<And>k. c \<le> k \<Longrightarrow> k < c' \<Longrightarrow> m S k = None) \<Longrightarrow> c \<le> c' \<Longrightarrow>
   regexp_search m S c = regexp_search m S c'"
proof (induction "c' - c" arbitrary: c)
  case 0
  then show ?case by simp
next
  case (Suc d)
  then have "c < c'" by simp
  with Suc.prems(1) [of c] have "m S c = None" by simp
  then have "regexp_search m S c = regexp_search m S (Suc c)" by (rule regexp_search_skip)
  also have "\<dots> = regexp_search m S c'"
  proof (rule Suc.hyps(1))
    show "d = c' - Suc c" using Suc.hyps(2) by simp
    show "\<And>k. Suc c \<le> k \<Longrightarrow> k < c' \<Longrightarrow> m S k = None" using Suc.prems(1) by simp
    show "Suc c \<le> c'" using \<open>c < c'\<close> by simp
  qed
  finally show ?case .
qed

lemma regexp_search_before:
  "regexp_search m S c = Some (j, n) \<Longrightarrow> c \<le> k \<Longrightarrow> k < j \<Longrightarrow> m S k = None"
proof (induction m S c rule: regexp_search.induct)
  case (1 m S i)
  note unfold = regexp_search.simps [of m S i]
  from "1.prems" regexp_search_Some [of m S i j n] have le: "\<not> length S < i" by simp
  show ?case
  proof (cases "m S i")
    case None
    with le "1.prems"(1) have nxt: "regexp_search m S (i + 1) = Some (j, n)"
      by (simp add: unfold)
    show ?thesis
    proof (cases "k = i")
      case True
      with None show ?thesis by simp
    next
      case False
      with "1.prems"(2) have "i + 1 \<le> k" by simp
      from "1.IH" [OF le None nxt this "1.prems"(3)] show ?thesis .
    qed
  next
    case (Some n')
    with le "1.prems"(1) have "j = i" by (simp add: unfold)
    with "1.prems" show ?thesis by simp
  qed
qed

lemma regexp_search_None:
  "regexp_search m S c = None \<Longrightarrow> c \<le> k \<Longrightarrow> k \<le> length S \<Longrightarrow> m S k = None"
proof (induction m S c rule: regexp_search.induct)
  case (1 m S i)
  note unfold = regexp_search.simps [of m S i]
  from "1.prems" have le: "\<not> length S < i" by simp
  show ?case
  proof (cases "m S i")
    case None
    with le "1.prems"(1) have nxt: "regexp_search m S (i + 1) = None"
      by (simp add: unfold)
    show ?thesis
    proof (cases "k = i")
      case True
      with None show ?thesis by simp
    next
      case False
      with "1.prems"(2) have "i + 1 \<le> k" by simp
      from "1.IH" [OF le None nxt this "1.prems"(3)] show ?thesis .
    qed
  next
    case (Some n')
    with le "1.prems"(1) show ?thesis by (simp add: unfold)
  qed
qed

lemma occurrences_range:
  assumes pos: "\<And>q n. m S q = Some n \<Longrightarrow> 0 < n"
    and "\<And>k. c \<le> k \<Longrightarrow> k < c' \<Longrightarrow> m S k = None" and "c \<le> c'"
  shows "occurrences m S c = occurrences m S c'"
proof -
  from assms(2,3) have "regexp_search m S c = regexp_search m S c'"
    by (rule regexp_search_range)
  then show ?thesis
    by (simp add: occurrences_unfold [of m S c, OF pos] occurrences_unfold [of m S c', OF pos])
qed

text \<open>
  One step of two scans side by side: when the first scan finds its next match at
  \<open>j\<close>, the second has nothing before \<open>j\<close>, and overlapping occurrences of the two are
  the same, then the second scan either has the same match next or has nothing before
  the end of that match.
\<close>

lemma other_scan_step:
  assumes p1: "\<And>q n. m1 S q = Some n \<Longrightarrow> 0 < n \<and> q + n \<le> length S"
    and p2: "\<And>q n. m2 S q = Some n \<Longrightarrow> 0 < n \<and> q + n \<le> length S"
    and first: "regexp_search m1 S c = Some (j, n)"
    and before: "\<And>k. c \<le> k \<Longrightarrow> k < j \<Longrightarrow> m2 S k = None"
    and agree: "agree (occurrences m1 S c) (occurrences m2 S c)"
  shows "occurrences m2 S c = (j, n) # occurrences m2 S (j + n) \<or>
         occurrences m2 S c = occurrences m2 S (j + n)"
proof -
  have pos1: "\<And>q n. m1 S q = Some n \<Longrightarrow> 0 < n" using p1 by blast
  have pos2: "\<And>q n. m2 S q = Some n \<Longrightarrow> 0 < n" using p2 by blast
  from regexp_search_Some [OF first] have j: "c \<le> j" "j \<le> length S" "m1 S j = Some n"
    by simp_all
  from p1 [OF j(3)] have n: "0 < n" "j + n \<le> length S" by simp_all
  have head1: "(j, n) \<in> set (occurrences m1 S c)"
    using first by (simp add: occurrences_unfold [of m1 S c, OF pos1])
  show ?thesis
  proof (cases "regexp_search m2 S c")
    case None
    then have "occurrences m2 S c = []"
      by (simp add: occurrences_unfold [of m2 S c, OF pos2])
    moreover have "regexp_search m2 S (j + n) = None"
    proof (cases "regexp_search m2 S (j + n)")
      case (Some x)
      obtain j' n' where "x = (j', n')" by (cases x)
      with Some regexp_search_Some [of m2 S "j + n" j' n']
      have "j + n \<le> j'" "j' \<le> length S" "m2 S j' = Some n'" by simp_all
      with regexp_search_None [OF None, of j'] j(1) show ?thesis by simp
    qed simp
    then have "occurrences m2 S (j + n) = []"
      by (simp add: occurrences_unfold [of m2 S "j + n", OF pos2])
    ultimately show ?thesis by simp
  next
    case (Some x)
    obtain j' n' where x: "x = (j', n')" by (cases x)
    with Some have first2: "regexp_search m2 S c = Some (j', n')" by simp
    from regexp_search_Some [OF first2]
    have j': "c \<le> j'" "j' \<le> length S" "m2 S j' = Some n'" by simp_all
    from p2 [OF j'(3)] have n': "0 < n'" by simp
    have head2: "occurrences m2 S c = (j', n') # occurrences m2 S (j' + n')"
      using first2 by (simp add: occurrences_unfold [of m2 S c, OF pos2])
    have "j \<le> j'"
    proof (rule ccontr)
      assume "\<not> j \<le> j'"
      with before [of j'] j'(1) j'(3) show False by simp
    qed
    show ?thesis
    proof (cases "j' < j + n")
      case True
      with \<open>j \<le> j'\<close> n' have "fst (j, n) < fst (j', n') + snd (j', n') \<and>
          fst (j', n') < fst (j, n) + snd (j, n)" by simp
      with agree head1 head2 have "(j, n) = (j', n')"
        unfolding agree_def by (metis list.set_intros(1))
      with head2 show ?thesis by simp
    next
      case False
      then have "j + n \<le> j'" by simp
      have "occurrences m2 S c = occurrences m2 S (j + n)"
      proof (rule occurrences_range [of m2 S c "j + n", OF pos2])
        fix k
        assume "c \<le> k" and "k < j + n"
        with \<open>j + n \<le> j'\<close> have "k < j'" by simp
        with first2 \<open>c \<le> k\<close> show "m2 S k = None" by (rule regexp_search_before)
      next
        show "c \<le> j + n" using j(1) by simp
      qed
      then show ?thesis by simp
    qed
  qed
qed

lemma regexp_search_NoneI:
  assumes "\<And>k. c \<le> k \<Longrightarrow> k \<le> length S \<Longrightarrow> m S k = None"
  shows "regexp_search m S c = None"
proof (cases "regexp_search m S c")
  case (Some x)
  obtain j n where "x = (j, n)" by (cases x)
  with Some regexp_search_Some [of m S c j n] assms [of j] show ?thesis by simp
qed simp

lemma regexp_search_SomeI:
  assumes "\<And>k. c \<le> k \<Longrightarrow> k < j \<Longrightarrow> m S k = None"
    and "c \<le> j" and "j \<le> length S" and "m S j = Some n"
  shows "regexp_search m S c = Some (j, n)"
proof -
  from assms(1,2) have "regexp_search m S c = regexp_search m S j" by (rule regexp_search_range)
  with assms(3,4) show ?thesis by (simp add: regexp_search_hit)
qed

text \<open>
  When the overlapping occurrences of two scans are the same, the scan with the combined
  disjunction finds every occurrence of either scan.
\<close>

lemma merged_scan:
  assumes ne1: "[] \<notin> set xs" and ne2: "[] \<notin> set ys"
  shows "agree (occurrences (match_alternatives xs) S c) (occurrences (match_alternatives ys) S c) \<Longrightarrow>
         set (occurrences (match_alternatives xs) S c) \<union>
         set (occurrences (match_alternatives ys) S c)
         \<subseteq> set (occurrences (match_alternatives (xs @ ys)) S c)"
proof (induction "Suc (length S) - c" arbitrary: c rule: less_induct)
  case less
  let ?m1 = "match_alternatives xs" and ?m2 = "match_alternatives ys"
    and ?m3 = "match_alternatives (xs @ ys)"
  from ne1 ne2 have ne3: "[] \<notin> set (xs @ ys)" by simp
  note p1 = match_alternatives_proper [OF ne1, of S]
    and p2 = match_alternatives_proper [OF ne2, of S]
    and p3 = match_alternatives_proper [OF ne3, of S]
  have pos1: "\<And>q n. ?m1 S q = Some n \<Longrightarrow> 0 < n" using p1 by blast
  have pos2: "\<And>q n. ?m2 S q = Some n \<Longrightarrow> 0 < n" using p2 by blast
  have pos3: "\<And>q n. ?m3 S q = Some n \<Longrightarrow> 0 < n" using p3 by blast
  have none: "\<And>k. ?m3 S k = None \<Longrightarrow> ?m1 S k = None \<and> ?m2 S k = None"
    by (simp add: match_alternatives_append split: option.splits)
  show ?case
  proof (cases "regexp_search ?m3 S c")
    case None
    have "regexp_search ?m1 S c = None"
      by (rule regexp_search_NoneI) (use regexp_search_None [OF None] none in blast)
    moreover have "regexp_search ?m2 S c = None"
      by (rule regexp_search_NoneI) (use regexp_search_None [OF None] none in blast)
    ultimately show ?thesis
      by (simp add: occurrences_unfold [of ?m1 S c, OF pos1]
          occurrences_unfold [of ?m2 S c, OF pos2])
  next
    case (Some x)
    obtain j n where x: "x = (j, n)" by (cases x)
    with Some have first3: "regexp_search ?m3 S c = Some (j, n)" by simp
    from regexp_search_Some [OF first3]
    have j: "c \<le> j" "j \<le> length S" "?m3 S j = Some n" by simp_all
    from p3 [OF j(3)] have n: "0 < n" "j + n \<le> length S" by simp_all
    have before: "\<And>k. c \<le> k \<Longrightarrow> k < j \<Longrightarrow> ?m1 S k = None \<and> ?m2 S k = None"
      using regexp_search_before [OF first3] none by blast
    have head3: "occurrences ?m3 S c = (j, n) # occurrences ?m3 S (j + n)"
      using first3 by (simp add: occurrences_unfold [of ?m3 S c, OF pos3])
    have steps:
      "(occurrences ?m1 S c = (j, n) # occurrences ?m1 S (j + n) \<or>
        occurrences ?m1 S c = occurrences ?m1 S (j + n)) \<and>
       (occurrences ?m2 S c = (j, n) # occurrences ?m2 S (j + n) \<or>
        occurrences ?m2 S c = occurrences ?m2 S (j + n))"
    proof (cases "?m1 S j")
      case (Some n1)
      with j(3) have "n1 = n" by (simp add: match_alternatives_append)
      with Some have m1: "?m1 S j = Some n" by simp
      have first1: "regexp_search ?m1 S c = Some (j, n)"
        by (rule regexp_search_SomeI) (use before j m1 in auto)
      have "occurrences ?m1 S c = (j, n) # occurrences ?m1 S (j + n)"
        using first1 by (simp add: occurrences_unfold [of ?m1 S c, OF pos1])
      moreover have "occurrences ?m2 S c = (j, n) # occurrences ?m2 S (j + n) \<or>
          occurrences ?m2 S c = occurrences ?m2 S (j + n)"
        by (rule other_scan_step [of ?m1 S ?m2 c j n]) (use p1 p2 first1 before less.prems in auto)
      ultimately show ?thesis by simp
    next
      case None
      with j(3) have m2: "?m2 S j = Some n" by (simp add: match_alternatives_append)
      have first2: "regexp_search ?m2 S c = Some (j, n)"
        by (rule regexp_search_SomeI) (use before j m2 in auto)
      have "occurrences ?m2 S c = (j, n) # occurrences ?m2 S (j + n)"
        using first2 by (simp add: occurrences_unfold [of ?m2 S c, OF pos2])
      moreover have "occurrences ?m1 S c = (j, n) # occurrences ?m1 S (j + n) \<or>
          occurrences ?m1 S c = occurrences ?m1 S (j + n)"
        by (rule other_scan_step [of ?m2 S ?m1 c j n])
           (use p1 p2 first2 before agree_sym [OF less.prems] in auto)
      ultimately show ?thesis by simp
    qed
    then have sub: "set (occurrences ?m1 S (j + n)) \<subseteq> set (occurrences ?m1 S c)"
      "set (occurrences ?m2 S (j + n)) \<subseteq> set (occurrences ?m2 S c)"
      by auto
    with less.prems have "agree (occurrences ?m1 S (j + n)) (occurrences ?m2 S (j + n))"
      by (rule agree_subset)
    moreover have "Suc (length S) - (j + n) < Suc (length S) - c"
      using j n by simp
    ultimately have "set (occurrences ?m1 S (j + n)) \<union> set (occurrences ?m2 S (j + n))
        \<subseteq> set (occurrences ?m3 S (j + n))"
      using less.hyps by blast
    with steps head3 show ?thesis by auto
  qed
qed

text \<open>A match whose piece passes one of the two tests is rendered as a mark at its offset.\<close>

lemma mark_key_of_piece:
  "sorted_wrt (\<lambda>a b. fst a + snd a \<le> fst b) os \<Longrightarrow>
   \<forall>y\<in>set os. p \<le> fst y \<and> fst y + snd y \<le> length S \<Longrightarrow>
   x \<in> set os \<Longrightarrow>
   belongs_to t pw (toLowerCase (substring S (fst x) (fst x + snd x))) \<or>
   belongs_to s sw (toLowerCase (substring S (fst x) (fst x + snd x))) \<Longrightarrow>
   fst x \<in> set (mark_keys (render_parts t pw s sw p (pieces S p os)))"
proof (induction os arbitrary: p)
  case Nil
  then show ?case by simp
next
  case (Cons y os)
  obtain j n where y: "y = (j, n)" by (cases y)
  from Cons.prems(2) y have j: "p \<le> j" "j + n \<le> length S" by auto
  from j have len1: "p + length (substring S p j) = j" by (simp add: substring_def)
  from j have len2: "j + length (substring S j (j + n)) = j + n" by (simp add: substring_def)
  show ?case
  proof (cases "x = y")
    case True
    with Cons.prems(4) y show ?thesis
      by (auto simp: mark_keys_Cons len1 len2)
  next
    case False
    with Cons.prems(3) have x: "x \<in> set os" by simp
    have "\<forall>z\<in>set os. j + n \<le> fst z \<and> fst z + snd z \<le> length S"
      using Cons.prems(1,2) y by auto
    moreover have "sorted_wrt (\<lambda>a b. fst a + snd a \<le> fst b) os" using Cons.prems(1) by simp
    ultimately have "fst x \<in> set (mark_keys (render_parts t pw s sw (j + n) (pieces S (j + n) os)))"
      using x Cons.prems(4) by (intro Cons.IH)
    then show ?thesis
      by (auto simp: y mark_keys_Cons len1 len2)
  qed
qed

lemma combined_occurrence_marked:
  assumes x: "x \<in> set (occurrences (match_alternatives (term_literals t @ term_literals s)) S 0)"
    and marked: "belongs_to t (word_set t) (toLowerCase (substring S (fst x) (fst x + snd x))) \<or>
       belongs_to s (word_set s) (toLowerCase (substring S (fst x) (fst x + snd x)))"
    and active: "truthy t \<or> truthy s"
  shows "fst x \<in> set (mark_keys (highlightText S t s))"
proof -
  let ?m = "match_alternatives (term_literals t @ term_literals s)"
  have nonempty: "[] \<notin> set (term_literals t @ term_literals s)"
    using term_literals_nonempty [of t] term_literals_nonempty [of s] by simp
  note proper = match_alternatives_proper [OF nonempty]
  have chain: "sorted_wrt (\<lambda>a b. fst a + snd a \<le> fst b) (occurrences ?m S 0)"
    by (rule occurrences_chain) (rule proper)
  have "\<forall>x\<in>set (occurrences ?m S 0). in_text S 0 x"
    by (rule occurrences_within) (rule proper)
  then have inside: "\<forall>y\<in>set (occurrences ?m S 0). 0 \<le> fst y \<and> fst y + snd y \<le> length S"
    by (auto simp: in_text_def)
  from chain inside x marked
  have "fst x \<in> set (mark_keys (render_parts t (word_set t) s (word_set s) 0
             (pieces S 0 (occurrences ?m S 0))))"
    by (rule mark_key_of_piece)
  with active split_pieces [of ?m S, OF proper] show ?thesis
    by (simp add: highlightText_cases)
qed

lemma family_occurrences_truthy: "x \<in> set (family_occurrences t S) \<Longrightarrow> truthy t"
  by (cases "truthy t") (simp_all add: family_occurrences_inactive)

lemma length_term_position_of:
  "x \<in> set (family_occurrences t S) \<Longrightarrow> length (mp_term (position_of S fam x)) = snd x"
proof -
  assume "x \<in> set (family_occurrences t S)"
  from family_occurrences_in_text [OF this] show ?thesis
    by (cases x) (simp add: in_text_def length_substring)
qed

text \<open>
  On the characters of the model the expression and \<open>toLowerCase\<close> fold alike, so every
  entry passes the test of its own family. Beyond code unit 255 the two foldings can
  differ (the sigma and the final sigma have one upper case and two lower cases); an
  entry whose text fails the test is rendered as a plain span.
\<close>

lemma family_occurrence_belongs:
  assumes "x \<in> set (family_occurrences t S)"
  shows "belongs_to t (word_set t) (toLowerCase (substring S (fst x) (fst x + snd x)))"
proof -
  let ?m = "match_alternatives (term_literals t)"
  have pos: "\<And>q n. ?m S q = Some n \<Longrightarrow> 0 < n"
    using match_alternatives_proper [OF term_literals_nonempty] by blast
  have "\<forall>x\<in>set (occurrences ?m S 0). ?m S (fst x) = Some (snd x)"
    by (rule occurrences_matches) (rule pos)
  with assms have "?m S (fst x) = Some (snd x)" by (simp add: family_occurrences_def)
  from match_alternatives_Some [OF this] obtain a
    where a: "a \<in> set (term_literals t)" "snd x = length a" "matches_literal_at a S (fst x)"
    by blast
  then have "toLowerCase (substring S (fst x) (fst x + snd x)) = toLowerCase a"
    by (simp add: matches_literal_at_def substring_def map_canonicalize_eq_iff)
  with a(1) show ?thesis by (rule literal_belongs)
qed

lemma entries_pass_own_test:
  assumes "documentText \<noteq> []"
    and "matchPositions_effect documentText t s prev = Some (Inr ps)"
    and "mp \<in> set ps"
  shows "passes_own_test t s mp"
proof -
  from assms(2) matchPositions_effect_result [OF assms(1), of t s prev]
  have "ps = sort_key mp_index
       (map (position_of documentText primary) (family_occurrences t documentText) @
        map (position_of documentText secondary) (family_occurrences s documentText))"
    by simp
  with assms(3) consider
      x where "x \<in> set (family_occurrences t documentText)" "mp = position_of documentText primary x"
    | x where "x \<in> set (family_occurrences s documentText)" "mp = position_of documentText secondary x"
    by auto
  then show ?thesis
  proof cases
    case 1
    from family_occurrence_belongs [OF 1(1)] 1(2) show ?thesis
      by (cases x) (simp add: passes_own_test_def fst_add_term)
  next
    case 2
    from family_occurrence_belongs [OF 2(1)] 2(2) show ?thesis
      by (cases x) (simp add: passes_own_test_def fst_add_term)
  qed
qed

lemma eval_overlap_effect:
  "matchPositions_effect ''abcdefxxxx'' (Some ''abcd'') (Some ''cdef'') [] =
     Some (Inr [\<lparr>mp_index = 0, mp_term = ''abcd'', mp_type = primary, mp_percentage = Num 0\<rparr>,
                \<lparr>mp_index = 2, mp_term = ''cdef'', mp_type = secondary, mp_percentage = Num 20\<rparr>])"
  by code_simp

lemma eval_overlap_highlight:
  "highlightText ''abcdefxxxx'' (Some ''abcd'') (Some ''cdef'') =
     [Span [], Mark primary 0 ''abcd'', Span ''efxxxx'']"
  by code_simp

text \<open>
  Claim C2, as stated, fails when matches of the two families overlap. In the text \<open>abcdefxxxx\<close> with
  the primary term \<open>abcd\<close> and the secondary term \<open>cdef\<close>, the secondary scan records a
  match at offset 2, while the combined expression of \<open>highlightText\<close> consumes
  \<open>abcd\<close> at offset 0 and finds no further match: no mark is registered under 2.
\<close>

theorem marker_without_span:
  "matchPositions_effect ''abcdefxxxx'' (Some ''abcd'') (Some ''cdef'') [] =
     Some (Inr [\<lparr>mp_index = 0, mp_term = ''abcd'', mp_type = primary, mp_percentage = Num 0\<rparr>,
                \<lparr>mp_index = 2, mp_term = ''cdef'', mp_type = secondary, mp_percentage = Num 20\<rparr>]) \<and>
   highlightText ''abcdefxxxx'' (Some ''abcd'') (Some ''cdef'') =
     [Span [], Mark primary 0 ''abcd'', Span ''efxxxx''] \<and>
   mp_index \<lparr>mp_index = 2, mp_term = ''cdef'', mp_type = secondary, mp_percentage = Num 20\<rparr>
     \<notin> set (mark_keys (highlightText ''abcdefxxxx'' (Some ''abcd'') (Some ''cdef'')))"
  by (simp add: eval_overlap_effect eval_overlap_highlight mark_keys_def)

lemma eval_same_start_effect:
  "matchPositions_effect ''abxcdefx'' (Some ''abx efx'') (Some ''abxc cde'') [] =
     Some (Inr [\<lparr>mp_index = 0, mp_term = ''abx'', mp_type = primary, mp_percentage = Num 0\<rparr>,
                \<lparr>mp_index = 0, mp_term = ''abxc'', mp_type = secondary, mp_percentage = Num 0\<rparr>,
                \<lparr>mp_index = 5, mp_term = ''efx'', mp_type = primary,
                   mp_percentage = Num (125 / 2)\<rparr>])"
  by code_simp

lemma eval_same_start_highlight:
  "highlightText ''abxcdefx'' (Some ''abx efx'') (Some ''abxc cde'') =
     [Span [], Mark primary 0 ''abx'', Span [], Mark secondary 3 ''cde'', Span ''fx'']"
  by code_simp

text \<open>
  The condition on overlapping entries cannot be relaxed to entries that merely start
  together. In the text \<open>abxcdefx\<close> with the primary term \<open>abx efx\<close> and the secondary
  term \<open>abxc cde\<close> the only overlapping entries of the two families both start at 0,
  yet the primary entry at 5 has no mark: after \<open>abx\<close> the combined expression matches
  \<open>cde\<close> at 3, which no scan of one family finds, and so passes over offset 5.
\<close>

lemma same_start_not_enough:
  "matchPositions_effect ''abxcdefx'' (Some ''abx efx'') (Some ''abxc cde'') [] =
     Some (Inr [\<lparr>mp_index = 0, mp_term = ''abx'', mp_type = primary, mp_percentage = Num 0\<rparr>,
                \<lparr>mp_index = 0, mp_term = ''abxc'', mp_type = secondary, mp_percentage = Num 0\<rparr>,
                \<lparr>mp_index = 5, mp_term = ''efx'', mp_type = primary,
                   mp_percentage = Num (125 / 2)\<rparr>]) \<and>
   5 \<notin> set (mark_keys (highlightText ''abxcdefx'' (Some ''abx efx'') (Some ''abxc cde'')))"
  by (simp add: eval_same_start_effect eval_same_start_highlight mark_keys_def)

lemma eval_shared_effect:
  "matchPositions_effect ''Income tax'' (Some ''tax'') (Some ''tax'') [] =
     Some (Inr [\<lparr>mp_index = 7, mp_term = ''tax'', mp_type = primary, mp_percentage = Num 70\<rparr>,
                \<lparr>mp_index = 7, mp_term = ''tax'', mp_type = secondary, mp_percentage = Num 70\<rparr>])"
  by code_simp

lemma eval_shared_passes:
  "passes_own_test (Some ''tax'') (Some ''tax'')
     \<lparr>mp_index = 7, mp_term = ''tax'', mp_type = secondary, mp_percentage = Num 70\<rparr>"
  by code_simp

text \<open>
  Claim C2, amended. For a non-empty text the effect returns, and if any primary
  entry and secondary entry of the index that overlap have the same extent (as is the
  case when the matches of the two families never overlap, and so when at most one
  term is active), then for every entry whose matched text passes the test of
  \<open>highlightText\<close> for the entry's own family, \<open>highlightText\<close> registers a mark under
  the entry's offset. The proof does not depend on how characters are folded; that the
  test is passed by every entry is a separate fact about characters on which the
  expression and \<open>toLowerCase\<close> fold alike (\<open>entries_pass_own_test\<close>).
\<close>

theorem marker_resolves:
  "documentText \<noteq> [] \<Longrightarrow>
   \<exists>ps. matchPositions_effect documentText highlightTerm secondaryHighlightTerm matchPositions
          = Some (Inr ps) \<and>
     ((\<forall>a\<in>set ps. \<forall>b\<in>set ps.
         mp_type a = primary \<and> mp_type b = secondary \<and> overlapping a b \<longrightarrow> same_extent a b) \<longrightarrow>
      (\<forall>mp\<in>set ps. passes_own_test highlightTerm secondaryHighlightTerm mp \<longrightarrow>
         mp_index mp \<in>
           set (mark_keys (highlightText documentText highlightTerm secondaryHighlightTerm))))"
proof -
  assume nonempty: "documentText \<noteq> []"
  let ?S = documentText and ?t = highlightTerm and ?s = secondaryHighlightTerm
  let ?A = "family_occurrences ?t ?S" and ?B = "family_occurrences ?s ?S"
  let ?ps = "sort_key mp_index (map (position_of ?S primary) ?A @ map (position_of ?S secondary) ?B)"
  have "\<forall>mp\<in>set ?ps. passes_own_test ?t ?s mp \<longrightarrow>
          mp_index mp \<in> set (mark_keys (highlightText ?S ?t ?s))"
    if same: "\<forall>a\<in>set ?ps. \<forall>b\<in>set ?ps.
         mp_type a = primary \<and> mp_type b = secondary \<and> overlapping a b \<longrightarrow> same_extent a b"
  proof -
    have "agree ?A ?B"
      unfolding agree_def
    proof (intro ballI impI)
      fix a b
      assume a: "a \<in> set ?A" and b: "b \<in> set ?B"
        and meet: "fst a < fst b + snd b \<and> fst b < fst a + snd a"
      let ?ea = "position_of ?S primary a" and ?eb = "position_of ?S secondary b"
      have la: "length (mp_term ?ea) = snd a" using a by (rule length_term_position_of)
      have lb: "length (mp_term ?eb) = snd b" using b by (rule length_term_position_of)
      have ia: "mp_index ?ea = fst a" by (cases a) simp
      have ib: "mp_index ?eb = fst b" by (cases b) simp
      have "?ea \<in> set ?ps" "?eb \<in> set ?ps" using a b by auto
      moreover have "mp_type ?ea = primary" "mp_type ?eb = secondary"
        by (cases a, simp) (cases b, simp)
      moreover have "overlapping ?ea ?eb" using meet by (simp add: overlapping_def la lb ia ib)
      ultimately have "same_extent ?ea ?eb" using same by blast
      then show "a = b" by (simp add: same_extent_def la lb ia ib prod_eq_iff)
    qed
    then have merged: "set ?A \<union> set ?B \<subseteq>
        set (occurrences (match_alternatives (term_literals ?t @ term_literals ?s)) ?S 0)"
      unfolding family_occurrences_def
      by (rule merged_scan [OF term_literals_nonempty term_literals_nonempty])
    show ?thesis
    proof (intro ballI impI)
      fix mp
      assume mp: "mp \<in> set ?ps" and pass: "passes_own_test ?t ?s mp"
      from mp consider
          x where "x \<in> set ?A" "mp = position_of ?S primary x"
        | x where "x \<in> set ?B" "mp = position_of ?S secondary x"
        by auto
      then show "mp_index mp \<in> set (mark_keys (highlightText ?S ?t ?s))"
      proof cases
        case 1
        obtain j n where jn: "x = (j, n)" by (cases x)
        from pass 1 jn
        have "belongs_to ?t (word_set ?t) (toLowerCase (substring ?S (fst x) (fst x + snd x)))"
          by (simp add: passes_own_test_def fst_add_term)
        moreover from 1 merged
        have "x \<in> set (occurrences (match_alternatives (term_literals ?t @ term_literals ?s)) ?S 0)"
          by blast
        moreover from 1 have "truthy ?t" by (auto dest: family_occurrences_truthy)
        ultimately have "fst x \<in> set (mark_keys (highlightText ?S ?t ?s))"
          by (intro combined_occurrence_marked) simp_all
        with 1 jn show ?thesis by simp
      next
        case 2
        obtain j n where jn: "x = (j, n)" by (cases x)
        from pass 2 jn
        have "belongs_to ?s (word_set ?s) (toLowerCase (substring ?S (fst x) (fst x + snd x)))"
          by (simp add: passes_own_test_def fst_add_term)
        moreover from 2 merged
        have "x \<in> set (occurrences (match_alternatives (term_literals ?t @ term_literals ?s)) ?S 0)"
          by blast
        moreover from 2 have "truthy ?s" by (auto dest: family_occurrences_truthy)
        ultimately have "fst x \<in> set (mark_keys (highlightText ?S ?t ?s))"
          by (intro combined_occurrence_marked) simp_all
        with 2 jn show ?thesis by simp
      qed
    qed
  qed
  with matchPositions_effect_result [OF nonempty, of ?t ?s matchPositions] show ?thesis
    by blast
qed

theorem marker_resolves_witness:
  "''Income tax'' \<noteq> [] \<and>
   matchPositions_effect ''Income tax'' (Some ''tax'') (Some ''tax'') [] =
     Some (Inr [\<lparr>mp_index = 7, mp_term = ''tax'', mp_type = primary, mp_percentage = Num 70\<rparr>,
                \<lparr>mp_index = 7, mp_term = ''tax'', mp_type = secondary, mp_percentage = Num 70\<rparr>]) \<and>
   overlapping
     \<lparr>mp_index = 7, mp_term = ''tax'', mp_type = primary, mp_percentage = Num 70\<rparr>
     \<lparr>mp_index = 7, mp_term = ''tax'', mp_type = secondary, mp_percentage = Num 70\<rparr> \<and>
   same_extent
     \<lparr>mp_index = 7, mp_term = ''tax'', mp_type = primary, mp_percentage = Num 70\<rparr>
     \<lparr>mp_index = 7, mp_term = ''tax'', mp_type = secondary, mp_percentage = Num 70\<rparr> \<and>
   passes_own_test (Some ''tax'') (Some ''tax'')
     \<lparr>mp_index = 7, mp_term = ''tax'', mp_type = secondary, mp_percentage = Num 70\<rparr> \<and>
   mp_index \<lparr>mp_index = 7, mp_term = ''tax'', mp_type = secondary, mp_percentage = Num 70\<rparr>
     \<in> set (mark_keys (highlightText ''Income tax'' (Some ''tax'') (Some ''tax'')))"
  using marker_resolves [of "''Income tax''" "Some ''tax''" "Some ''tax''" "[]"]
  by (simp add: eval_shared_effect eval_shared_passes eval_tax mark_keys_def
      overlapping_def same_extent_def)

end
